theory Spec2Isabelle
  imports Main "HOL-Library.Word" "HOL-Library.Multiset"
begin

unbundle bit_operations_syntax

section \<open>Squares, bitboards and moves (game.h)\<close>

type_synonym Bitboard = "64 word"

text \<open>Squares are C++ \<open>int\<close>s: a1 = 0, ..., h8 = 63, \<open>NO_SQUARE\<close> = 64.\<close>

definition A2 :: int where "A2 = 8"
definition H2 :: int where "H2 = 15"
definition A8 :: int where "A8 = 56"
definition D8 :: int where "D8 = 59"
definition NO_SQUARE :: int where "NO_SQUARE = 64"

definition QUIET :: int where "QUIET = 0"
definition DOUBLE_PUSH :: int where "DOUBLE_PUSH = 1"
definition CAPTURE :: int where "CAPTURE = 4"

text \<open>\<open>struct Move\<close>: one \<open>uint16_t\<close>, 6 bits origin, 6 bits destination, 4 bits flags.\<close>

datatype Move = Move (data: "16 word")

definition Move0 :: Move where
  "Move0 = Move 0"

text \<open>\<open>Move(int from, int to, int flags)\<close>: the \<open>int\<close> expression is narrowed to 16 bits.\<close>

definition mkMove :: "int \<Rightarrow> int \<Rightarrow> int \<Rightarrow> Move" where
  "mkMove from to flags = Move (word_of_int (push_bit 12 flags OR push_bit 6 to OR from))"

definition from_sq :: "Move \<Rightarrow> int" where
  "from_sq m = uint (data m AND 0x3F)"

definition to_sq :: "Move \<Rightarrow> int" where
  "to_sq m = uint (drop_bit 6 (data m) AND 0x3F)"

definition flags :: "Move \<Rightarrow> int" where
  "flags m = uint (drop_bit 12 (data m) AND 0xF)"

definition isCapture :: "Move \<Rightarrow> bool" where
  "isCapture m = (flags m AND 4 \<noteq> 0)"

definition isDoublePush :: "Move \<Rightarrow> bool" where
  "isDoublePush m = (flags m = 1)"

definition isPromotion :: "Move \<Rightarrow> bool" where
  "isPromotion m = (to_sq m \<ge> A8)"

definition isValid :: "Move \<Rightarrow> bool" where
  "isValid m = (data m \<noteq> 0)"

datatype GameResult =
  ONGOING | WHITE_WINS_PROMOTION | WHITE_WINS_CAPTURE | BLACK_WINS | DRAW_STALEMATE

datatype Side = WHITE | BLACK

definition fileOf :: "int \<Rightarrow> int" where
  "fileOf sq = sq AND 7"

definition rankOf :: "int \<Rightarrow> int" where
  "rankOf sq = drop_bit 3 sq"

definition makeSquare :: "int \<Rightarrow> int \<Rightarrow> int" where
  "makeSquare file rank = rank * 8 + file"

text \<open>\<open>1ULL << sq\<close>. Every call site passes a square in 0..63.\<close>

definition squareBB :: "int \<Rightarrow> Bitboard" where
  "squareBB sq = push_bit (nat sq) 1"

definition RANK_2 :: Bitboard where "RANK_2 = 0x000000000000FF00"
definition RANK_8 :: Bitboard where "RANK_8 = 0xFF00000000000000"

section \<open>Bit scanning\<close>

text \<open>
  \<open>__builtin_ctzll\<close> counts the trailing zero bits of a 64-bit value. The builtin is
  undefined on 0; \<open>lsb\<close> tests for 0 first, so the value 64 given here is never used.
\<close>

definition builtin_ctzll :: "Bitboard \<Rightarrow> int" where
  "builtin_ctzll bb = (case List.find (bit bb) [0..<64] of Some n \<Rightarrow> int n | None \<Rightarrow> 64)"

definition lsb :: "Bitboard \<Rightarrow> int" where
  "lsb bb = (if bb = 0 then - 1 else builtin_ctzll bb)"


section \<open>Sliding attacks (game.cpp)\<close>

text \<open>
  Each of the eight \<open>for\<close> loops of \<open>rookAttacks\<close> and \<open>bishopAttacks\<close> is one recursive
  function over the loop variables \<open>f\<close> (file) and \<open>r\<close> (rank): the square is added to the
  attack set, and the loop breaks when that square is occupied.
\<close>

function rayNorth :: "int \<Rightarrow> int \<Rightarrow> Bitboard \<Rightarrow> Bitboard \<Rightarrow> Bitboard" where
  "rayNorth f r occupied attacks =
     (if r < 8 then
        (if occupied AND squareBB (makeSquare f r) \<noteq> 0
         then attacks OR squareBB (makeSquare f r)
         else rayNorth f (r + 1) occupied (attacks OR squareBB (makeSquare f r)))
      else attacks)"
  by pat_completeness auto
termination by (relation "measure (\<lambda>(f, r, occupied, attacks). nat (8 - r))") auto
declare rayNorth.simps [simp del]

function raySouth :: "int \<Rightarrow> int \<Rightarrow> Bitboard \<Rightarrow> Bitboard \<Rightarrow> Bitboard" where
  "raySouth f r occupied attacks =
     (if r \<ge> 0 then
        (if occupied AND squareBB (makeSquare f r) \<noteq> 0
         then attacks OR squareBB (makeSquare f r)
         else raySouth f (r - 1) occupied (attacks OR squareBB (makeSquare f r)))
      else attacks)"
  by pat_completeness auto
termination by (relation "measure (\<lambda>(f, r, occupied, attacks). nat (r + 1))") auto
declare raySouth.simps [simp del]

function rayEast :: "int \<Rightarrow> int \<Rightarrow> Bitboard \<Rightarrow> Bitboard \<Rightarrow> Bitboard" where
  "rayEast f r occupied attacks =
     (if f < 8 then
        (if occupied AND squareBB (makeSquare f r) \<noteq> 0
         then attacks OR squareBB (makeSquare f r)
         else rayEast (f + 1) r occupied (attacks OR squareBB (makeSquare f r)))
      else attacks)"
  by pat_completeness auto
termination by (relation "measure (\<lambda>(f, r, occupied, attacks). nat (8 - f))") auto
declare rayEast.simps [simp del]

function rayWest :: "int \<Rightarrow> int \<Rightarrow> Bitboard \<Rightarrow> Bitboard \<Rightarrow> Bitboard" where
  "rayWest f r occupied attacks =
     (if f \<ge> 0 then
        (if occupied AND squareBB (makeSquare f r) \<noteq> 0
         then attacks OR squareBB (makeSquare f r)
         else rayWest (f - 1) r occupied (attacks OR squareBB (makeSquare f r)))
      else attacks)"
  by pat_completeness auto
termination by (relation "measure (\<lambda>(f, r, occupied, attacks). nat (f + 1))") auto
declare rayWest.simps [simp del]

function rayNE :: "int \<Rightarrow> int \<Rightarrow> Bitboard \<Rightarrow> Bitboard \<Rightarrow> Bitboard" where
  "rayNE f r occupied attacks =
     (if r < 8 \<and> f < 8 then
        (if occupied AND squareBB (makeSquare f r) \<noteq> 0
         then attacks OR squareBB (makeSquare f r)
         else rayNE (f + 1) (r + 1) occupied (attacks OR squareBB (makeSquare f r)))
      else attacks)"
  by pat_completeness auto
termination by (relation "measure (\<lambda>(f, r, occupied, attacks). nat (8 - r))") auto
declare rayNE.simps [simp del]

function rayNW :: "int \<Rightarrow> int \<Rightarrow> Bitboard \<Rightarrow> Bitboard \<Rightarrow> Bitboard" where
  "rayNW f r occupied attacks =
     (if r < 8 \<and> f \<ge> 0 then
        (if occupied AND squareBB (makeSquare f r) \<noteq> 0
         then attacks OR squareBB (makeSquare f r)
         else rayNW (f - 1) (r + 1) occupied (attacks OR squareBB (makeSquare f r)))
      else attacks)"
  by pat_completeness auto
termination by (relation "measure (\<lambda>(f, r, occupied, attacks). nat (8 - r))") auto
declare rayNW.simps [simp del]

function raySE :: "int \<Rightarrow> int \<Rightarrow> Bitboard \<Rightarrow> Bitboard \<Rightarrow> Bitboard" where
  "raySE f r occupied attacks =
     (if r \<ge> 0 \<and> f < 8 then
        (if occupied AND squareBB (makeSquare f r) \<noteq> 0
         then attacks OR squareBB (makeSquare f r)
         else raySE (f + 1) (r - 1) occupied (attacks OR squareBB (makeSquare f r)))
      else attacks)"
  by pat_completeness auto
termination by (relation "measure (\<lambda>(f, r, occupied, attacks). nat (r + 1))") auto
declare raySE.simps [simp del]

function raySW :: "int \<Rightarrow> int \<Rightarrow> Bitboard \<Rightarrow> Bitboard \<Rightarrow> Bitboard" where
  "raySW f r occupied attacks =
     (if r \<ge> 0 \<and> f \<ge> 0 then
        (if occupied AND squareBB (makeSquare f r) \<noteq> 0
         then attacks OR squareBB (makeSquare f r)
         else raySW (f - 1) (r - 1) occupied (attacks OR squareBB (makeSquare f r)))
      else attacks)"
  by pat_completeness auto
termination by (relation "measure (\<lambda>(f, r, occupied, attacks). nat (r + 1))") auto
declare raySW.simps [simp del]

definition rookAttacks :: "int \<Rightarrow> Bitboard \<Rightarrow> Bitboard" where
  "rookAttacks sq occupied =
     (let rank = rankOf sq; file = fileOf sq;
          a1 = rayNorth file (rank + 1) occupied 0;
          a2 = raySouth file (rank - 1) occupied a1;
          a3 = rayEast (file + 1) rank occupied a2
      in rayWest (file - 1) rank occupied a3)"

definition bishopAttacks :: "int \<Rightarrow> Bitboard \<Rightarrow> Bitboard" where
  "bishopAttacks sq occupied =
     (let rank = rankOf sq; file = fileOf sq;
          a1 = rayNE (file + 1) (rank + 1) occupied 0;
          a2 = rayNW (file - 1) (rank + 1) occupied a1;
          a3 = raySE (file + 1) (rank - 1) occupied a2
      in raySW (file - 1) (rank - 1) occupied a3)"

definition queenAttacks :: "int \<Rightarrow> Bitboard \<Rightarrow> Bitboard" where
  "queenAttacks sq occupied = rookAttacks sq occupied OR bishopAttacks sq occupied"


section \<open>Clearing the lowest set bit\<close>

text \<open>
  The loops over a bitboard read the lowest set bit with \<open>lsb\<close> and clear it with
  \<open>bb &= bb - 1\<close>. The cleared value is smaller, which is why these loops end, and it
  has exactly the bits of \<open>bb\<close> above the lowest one.
\<close>

lemma and_pred_less: "(w::'a::len word) \<noteq> 0 \<Longrightarrow> unat (w AND (w - 1)) < unat w"
  by (metis word_and_le1 measure_unat word_le_nat_alt le_less_trans)

lemma ex_less_Suc_shift: "(\<exists>j<Suc i. P j) = (P 0 \<or> (\<exists>j<i. P (Suc j)))"
  by (metis less_Suc_eq_0_disj)

lemma nat_and_pred_bit:
  "0 < k \<Longrightarrow> bit ((k::nat) AND (k - 1)) i = (bit k i \<and> (\<exists>j<i. bit k j))"
proof (induction k arbitrary: i rule: nat_bit_induct)
  case zero
  then show ?case by simp
next
  case (even n)
  have e: "(2 * n - 1) div 2 = n - 1" using even by simp
  show ?case
  proof (cases i)
    case 0
    then show ?thesis by (simp add: bit_0 even_and_iff)
  next
    case (Suc i')
    have e2: "(2 * n - Suc 0) div 2 = n - Suc 0" using e by simp
    have "bit (2 * n AND (2 * n - 1)) (Suc i') = (bit (2 * n) (Suc i') \<and> bit (2 * n - 1) (Suc i'))"
      by (rule bit_and_iff)
    also have "\<dots> = (bit n i' \<and> bit (n - 1) i')"
      by (simp add: bit_Suc e2)
    also have "\<dots> = bit (n AND (n - 1)) i'"
      by (simp add: bit_and_iff)
    also have "\<dots> = (bit n i' \<and> (\<exists>j<i'. bit n j))"
      using even by simp
    also have "\<dots> = (bit (2 * n) (Suc i') \<and> (\<exists>j<Suc i'. bit (2 * n) j))"
      by (simp add: ex_less_Suc_shift bit_Suc bit_0)
    finally show ?thesis using Suc by simp
  qed
next
  case (odd n)
  show ?case
  proof (cases i)
    case 0
    then show ?thesis by (simp add: bit_0 even_and_iff)
  next
    case (Suc i')
    have "bit (1 + 2 * n AND (1 + 2 * n - 1)) (Suc i') =
          (bit (1 + 2 * n) (Suc i') \<and> bit (1 + 2 * n - 1) (Suc i'))"
      by (rule bit_and_iff)
    also have "\<dots> = bit (1 + 2 * n) (Suc i')"
      by (simp add: bit_Suc)
    finally have "bit (1 + 2 * n AND (1 + 2 * n - 1)) (Suc i') = bit (1 + 2 * n) (Suc i')" .
    moreover have "(\<exists>j<Suc i'. bit (1 + 2 * n) j)" by (rule exI[of _ 0]) (simp add: bit_0)
    ultimately show ?thesis using Suc by simp
  qed
qed

lemma word_and_pred_bit:
  fixes w :: "'a::len word"
  assumes "w \<noteq> 0"
  shows "bit (w AND (w - 1)) i = (bit w i \<and> (\<exists>j<i. bit w j))"
proof -
  have pos: "unat w > 0" using assms by (simp add: unat_gt_0)
  have "bit (w AND (w - 1)) i = bit (unat (w AND (w - 1))) i"
    by (simp add: bit_unsigned_iff)
  also have "unat (w AND (w - 1)) = unat w AND (unat w - 1)"
    using assms by (simp add: unsigned_and_eq unat_minus_one)
  also have "bit (unat w AND (unat w - 1)) i = (bit (unat w) i \<and> (\<exists>j<i. bit (unat w) j))"
    using pos by (rule nat_and_pred_bit)
  also have "\<dots> = (bit w i \<and> (\<exists>j<i. bit w j))"
    by (simp add: bit_unsigned_iff)
  finally show ?thesis .
qed

section \<open>Move generation (game.cpp)\<close>

text \<open>The body of the \<open>while\<close> loop of \<open>generatePawnMoves\<close> for the pawn on \<open>from\<close>.\<close>

definition pawnMovesFrom :: "int \<Rightarrow> Bitboard \<Rightarrow> Bitboard \<Rightarrow> Move list \<Rightarrow> Move list" where
  "pawnMovesFrom from occupied queen moves =
     (let rank = rankOf from;
          file = fileOf from;
          to = from + 8;
          moves1 =
            (if to < 64 \<and> occupied AND squareBB to = 0 then
               (if rank = 1 then
                  (if occupied AND squareBB (from + 16) = 0
                   then moves @ [mkMove from to QUIET, mkMove from (from + 16) DOUBLE_PUSH]
                   else moves @ [mkMove from to QUIET])
                else moves @ [mkMove from to QUIET])
             else moves);
          moves2 =
            (if file > 0 then
               (if from + 7 < 64 \<and> queen AND squareBB (from + 7) \<noteq> 0
                then moves1 @ [mkMove from (from + 7) CAPTURE] else moves1)
             else moves1)
      in if file < 7 then
           (if from + 9 < 64 \<and> queen AND squareBB (from + 9) \<noteq> 0
            then moves2 @ [mkMove from (from + 9) CAPTURE] else moves2)
         else moves2)"

function pawnLoop :: "Bitboard \<Rightarrow> Bitboard \<Rightarrow> Bitboard \<Rightarrow> Move list \<Rightarrow> Move list" where
  "pawnLoop bb occupied queen moves =
     (if bb = 0 then moves
      else pawnLoop (bb AND (bb - 1)) occupied queen (pawnMovesFrom (lsb bb) occupied queen moves))"
  by pat_completeness auto
termination
  by (relation "measure (\<lambda>(bb, occupied, queen, moves). unat bb)") (auto simp: and_pred_less)
declare pawnLoop.simps [simp del]

text \<open>
  The two \<open>while\<close> loops of \<open>generateQueenMoves\<close> (over the empty target squares with flag
  \<open>QUIET\<close>, then over the attacked pawns with flag \<open>CAPTURE\<close>) have the same body.
\<close>

function queenLoop :: "int \<Rightarrow> int \<Rightarrow> Bitboard \<Rightarrow> Move list \<Rightarrow> Move list" where
  "queenLoop from flag bb moves =
     (if bb = 0 then moves
      else queenLoop from flag (bb AND (bb - 1)) (moves @ [mkMove from (lsb bb) flag]))"
  by pat_completeness auto
termination
  by (relation "measure (\<lambda>(from, flag, bb, moves). unat bb)") (auto simp: and_pred_less)
declare queenLoop.simps [simp del]

section \<open>Zobrist keys (game.cpp, initZobrist)\<close>

text \<open>
  \<open>initZobrist\<close> draws 129 values from \<open>std::mt19937_64 rng(0x1234567890ABCDEF)\<close>: for each
  square in order \<open>pawnKeys[sq]\<close> then \<open>queenKeys[sq]\<close>, and last \<open>sideKey\<close>. The engine is
  the C++ standard library's, not the repository's; it is written out here from its
  definition in the C++ standard (mersenne_twister_engine with word size 64, state size
  312, shift size 156, mask bits 31): the state is seeded by a linear recurrence, and value
  number \<open>k\<close> (for \<open>k < 156\<close>) is the tempered twist of the seeded words \<open>k\<close>, \<open>k + 1\<close> and
  \<open>k + 156\<close>.
\<close>

primrec mt_seed :: "nat \<Rightarrow> nat \<Rightarrow> nat \<Rightarrow> nat" where
  "mt_seed 0 i x = x"
| "mt_seed (Suc n) i x =
     mt_seed n (i + 1) (take_bit 64 (6364136223846793005 * (x XOR drop_bit 62 x) + (i + 1)))"

text \<open>Word \<open>k\<close> of the state after seeding: \<open>k\<close> steps of the recurrence from the seed.\<close>

definition mt_state :: "nat \<Rightarrow> 64 word" where
  "mt_state k = of_nat (mt_seed k 0 0x1234567890ABCDEF)"

definition mt_twist :: "64 word \<Rightarrow> 64 word \<Rightarrow> 64 word \<Rightarrow> 64 word" where
  "mt_twist xk xk1 xkm =
     (let y = (xk AND 0xFFFFFFFF80000000) OR (xk1 AND 0x7FFFFFFF)
      in xkm XOR drop_bit 1 y XOR (if bit y 0 then 0xB5026F5AA96619E9 else 0))"

definition mt_temper :: "64 word \<Rightarrow> 64 word" where
  "mt_temper z =
     (let z1 = z XOR (drop_bit 29 z AND 0x5555555555555555);
          z2 = z1 XOR (push_bit 17 z1 AND 0x71D67FFFEDA60000);
          z3 = z2 XOR (push_bit 37 z2 AND 0xFFF7EEE000000000)
      in z3 XOR drop_bit 43 z3)"

text \<open>The \<open>k\<close>-th value drawn from the engine, counting from 0, for \<open>k < 156\<close>.\<close>

definition zobrist_rng :: "nat \<Rightarrow> 64 word" where
  "zobrist_rng k = mt_temper (mt_twist (mt_state k) (mt_state (k + 1)) (mt_state (k + 156)))"

definition pawnKeys :: "int \<Rightarrow> 64 word" where
  "pawnKeys sq = zobrist_rng (nat (2 * sq))"

definition queenKeys :: "int \<Rightarrow> 64 word" where
  "queenKeys sq = zobrist_rng (nat (2 * sq + 1))"

definition sideKey :: "64 word" where
  "sideKey = zobrist_rng 128"

section \<open>The game state (game.h, game.cpp)\<close>

record UndoInfo =
  undo_move :: Move
  capturedPiece :: Bitboard
  undo_hash :: "64 word"

text \<open>
  \<open>ply\<close> is a C++ \<open>int\<close>, a 32-bit word read with \<open>sint\<close>; \<open>ply++\<close> and \<open>ply--\<close> wrap (no claim
  depends on what happens at the ends of the range).
\<close>

record Game =
  pawns :: Bitboard
  queen :: Bitboard
  sideToMove :: Side
  hash :: "64 word"
  ply :: "32 word"
  moveHistory :: "UndoInfo list"

definition generatePawnMoves :: "Game \<Rightarrow> Move list \<Rightarrow> Move list" where
  "generatePawnMoves g moves = pawnLoop (pawns g) (pawns g OR queen g) (queen g) moves"

definition generateQueenMoves :: "Game \<Rightarrow> Move list \<Rightarrow> Move list" where
  "generateQueenMoves g moves =
     (if queen g = 0 then moves
      else
        (let from = lsb (queen g);
             occupied = pawns g OR queen g;
             attacks = queenAttacks from occupied;
             moves1 = queenLoop from QUIET (attacks AND NOT occupied) moves
         in queenLoop from CAPTURE (attacks AND pawns g) moves1))"

definition generateLegalMoves :: "Game \<Rightarrow> Move list" where
  "generateLegalMoves g =
     (if sideToMove g = WHITE then generatePawnMoves g [] else generateQueenMoves g [])"

definition isLegalMove :: "Game \<Rightarrow> Move \<Rightarrow> bool" where
  "isLegalMove g move = (move \<in> set (generateLegalMoves g))"

definition flipSide :: "Side \<Rightarrow> Side" where
  "flipSide s = (if s = WHITE then BLACK else WHITE)"

text \<open>\<open>reset\<close> does not touch \<open>moveHistory\<close>.\<close>

definition reset :: "Game \<Rightarrow> Game" where
  "reset g =
     g\<lparr>pawns := RANK_2, queen := squareBB D8, sideToMove := WHITE, ply := 0,
       hash := fold (\<lambda>sq h. h XOR pawnKeys sq) [A2..H2] 0 XOR queenKeys D8\<rparr>"

function hashLoop :: "(int \<Rightarrow> 64 word) \<Rightarrow> Bitboard \<Rightarrow> 64 word \<Rightarrow> 64 word" where
  "hashLoop keys bb h =
     (if bb = 0 then h else hashLoop keys (bb AND (bb - 1)) (h XOR keys (lsb bb)))"
  by pat_completeness auto
termination
  by (relation "measure (\<lambda>(keys, bb, h). unat bb)") (auto simp: and_pred_less)
declare hashLoop.simps [simp del]

definition setPosition :: "Game \<Rightarrow> Bitboard \<Rightarrow> Bitboard \<Rightarrow> Side \<Rightarrow> Game" where
  "setPosition g p q side =
     (let h1 = hashLoop pawnKeys p 0;
          h2 = hashLoop queenKeys q h1
      in \<lparr>pawns = p, queen = q, sideToMove = side,
          hash = (if side = BLACK then h2 XOR sideKey else h2),
          ply = 0, moveHistory = []\<rparr>)"

text \<open>The constructor \<open>Game()\<close>: an empty history, then \<open>reset\<close>.\<close>

definition newGame :: Game where
  "newGame = reset \<lparr>pawns = 0, queen = 0, sideToMove = WHITE, hash = 0, ply = 0, moveHistory = []\<rparr>"

text \<open>\<open>makeMove\<close> and \<open>unmakeMove\<close> return their \<open>bool\<close> together with the state they leave.\<close>

definition makeMove :: "Game \<Rightarrow> Move \<Rightarrow> bool \<times> Game" where
  "makeMove g move =
     (if \<not> isLegalMove g move then (False, g)
      else
        (let from = from_sq move;
             to = to_sq move;
             undo0 = \<lparr>undo_move = move, capturedPiece = 0, undo_hash = hash g\<rparr>;
             (undo, g1) =
               (if sideToMove g = WHITE then
                  (let (u, gc) =
                         (if isCapture move
                          then (undo0\<lparr>capturedPiece := queen g\<rparr>,
                                g\<lparr>hash := hash g XOR queenKeys to, queen := 0\<rparr>)
                          else (undo0, g))
                   in (u, gc\<lparr>hash := hash gc XOR pawnKeys from XOR pawnKeys to,
                              pawns := (pawns gc AND NOT (squareBB from)) OR squareBB to\<rparr>))
                else
                  (let (u, gc) =
                         (if isCapture move
                          then (undo0\<lparr>capturedPiece := squareBB to\<rparr>,
                                g\<lparr>hash := hash g XOR pawnKeys to,
                                  pawns := pawns g AND NOT (squareBB to)\<rparr>)
                          else (undo0, g))
                   in (u, gc\<lparr>hash := hash gc XOR queenKeys from XOR queenKeys to,
                              queen := (queen gc AND NOT (squareBB from)) OR squareBB to\<rparr>)))
         in (True, g1\<lparr>hash := hash g1 XOR sideKey,
                      sideToMove := flipSide (sideToMove g1),
                      ply := ply g1 + 1,
                      moveHistory := moveHistory g1 @ [undo]\<rparr>)))"

definition unmakeMove :: "Game \<Rightarrow> bool \<times> Game" where
  "unmakeMove g =
     (if moveHistory g = [] then (False, g)
      else
        (let undo = last (moveHistory g);
             from = from_sq (undo_move undo);
             to = to_sq (undo_move undo);
             g1 = g\<lparr>moveHistory := butlast (moveHistory g),
                    sideToMove := flipSide (sideToMove g),
                    ply := ply g - 1\<rparr>;
             g2 =
               (if sideToMove g1 = WHITE then
                  (let gp = g1\<lparr>pawns := (pawns g1 AND NOT (squareBB to)) OR squareBB from\<rparr>
                   in if isCapture (undo_move undo)
                      then gp\<lparr>queen := capturedPiece undo\<rparr> else gp)
                else
                  (let gq = g1\<lparr>queen := (queen g1 AND NOT (squareBB to)) OR squareBB from\<rparr>
                   in if isCapture (undo_move undo)
                      then gq\<lparr>pawns := pawns gq OR capturedPiece undo\<rparr> else gq))
         in (True, g2\<lparr>hash := undo_hash undo\<rparr>)))"

definition getResult :: "Game \<Rightarrow> GameResult" where
  "getResult g =
     (if pawns g AND RANK_8 \<noteq> 0 then WHITE_WINS_PROMOTION
      else if queen g = 0 then WHITE_WINS_CAPTURE
      else if pawns g = 0 then BLACK_WINS
      else if generateLegalMoves g = [] then DRAW_STALEMATE
      else ONGOING)"

definition isGameOver :: "Game \<Rightarrow> bool" where
  "isGameOver g = (getResult g \<noteq> ONGOING)"

definition getQueenSquare :: "Game \<Rightarrow> int" where
  "getQueenSquare g = (if queen g = 0 then NO_SQUARE else lsb (queen g))"

text \<open>
  \<open>str[i] - 'a'\<close> is computed in \<open>int\<close> from a plain \<open>char\<close>, which is signed on the
  build targets (bytes from 128 on are negative).
\<close>

definition char_value :: "char \<Rightarrow> int" where
  "char_value c = (if (of_char c :: int) < 128 then of_char c else of_char c - 256)"

definition algebraicToMove :: "Game \<Rightarrow> string \<Rightarrow> Move" where
  "algebraicToMove g str =
     (if length str < 4 then Move0
      else
        (let fromFile = char_value (str ! 0) - char_value (CHR ''a'');
             fromRank = char_value (str ! 1) - char_value (CHR ''1'');
             toFile = char_value (str ! 2) - char_value (CHR ''a'');
             toRank = char_value (str ! 3) - char_value (CHR ''1'')
         in if fromFile < 0 \<or> fromFile > 7 \<or> fromRank < 0 \<or> fromRank > 7 \<or>
               toFile < 0 \<or> toFile > 7 \<or> toRank < 0 \<or> toRank > 7
            then Move0
            else
              (let from = makeSquare fromFile fromRank;
                   to = makeSquare toFile toRank;
                   toBB = squareBB to;
                   flags =
                     (if sideToMove g = WHITE then
                        (if queen g AND toBB \<noteq> 0 then CAPTURE
                         else if toRank - fromRank = 2 then DOUBLE_PUSH else QUIET)
                      else (if pawns g AND toBB \<noteq> 0 then CAPTURE else QUIET))
               in mkMove from to flags)))"


text \<open>The characters that name a file, \<open>'a'..'h'\<close>, and a rank, \<open>'1'..'8'\<close>.\<close>

definition fileChar :: "char \<Rightarrow> bool" where
  "fileChar c = (c \<in> set ''abcdefgh'')"

definition rankChar :: "char \<Rightarrow> bool" where
  "rankChar c = (c \<in> set ''12345678'')"

text \<open>The position after \<open>a2a3\<close> from the start, used as a concrete input below.\<close>

definition game_a2a3 :: Game where
  "game_a2a3 = snd (makeMove newGame (mkMove 8 16 QUIET))"

text \<open>
  A game played through the interface only: seven moves from the start (\<open>a2a3\<close>, \<open>Qd8xd2\<close>,
  \<open>a3a4\<close>, \<open>Qd2c1\<close>, \<open>a4a5\<close>, \<open>Qc1d1\<close>, \<open>b2b3\<close>), then \<open>reset\<close>, then \<open>unmakeMove\<close> twice.
\<close>

definition game_seven :: Game where
  "game_seven =
     foldl (\<lambda>g m. snd (makeMove g m)) newGame
       (map Move [1032, 17147, 1552, 139, 2072, 194, 1097])"

definition game_stale :: Game where
  "game_stale = snd (unmakeMove (snd (unmakeMove (reset game_seven))))"

section \<open>The search engine's tables (ai.h, ai.cpp)\<close>

datatype TTFlag = TT_EXACT | TT_ALPHA | TT_BETA

text \<open>\<open>struct TTEntry\<close>: \<open>score\<close> is an \<open>int16_t\<close>, \<open>depth\<close> an \<open>int8_t\<close>, \<open>age\<close> a \<open>uint8_t\<close>.\<close>

record TTEntry =
  tt_hash :: "64 word"
  tt_score :: "16 word"
  tt_depth :: "8 word"
  tt_flag :: TTFlag
  tt_bestMove :: Move
  tt_age :: "8 word"

definition TTEntry0 :: TTEntry where
  "TTEntry0 = \<lparr>tt_hash = 0, tt_score = 0, tt_depth = 0, tt_flag = TT_EXACT,
               tt_bestMove = Move0, tt_age = 0\<rparr>"

definition tt_isValid :: "TTEntry \<Rightarrow> 64 word \<Rightarrow> int \<Rightarrow> bool" where
  "tt_isValid e h d = (tt_hash e = h \<and> sint (tt_depth e) \<ge> d)"

definition TT_SIZE :: nat where "TT_SIZE = 2 ^ 20"
definition MATE_SCORE :: int where "MATE_SCORE = 100000"

text \<open>
  The fields of \<open>class AI\<close> that the table and the move ordering use. \<open>transTable\<close> is a
  vector of \<open>TT_SIZE\<close> entries, read and written only at \<open>hash % TT_SIZE\<close>; \<open>killers\<close> is
  indexed by ply and slot, \<open>history\<close> by origin and destination square.
\<close>

record AI =
  transTable :: "nat \<Rightarrow> TTEntry"
  ttAge :: "8 word"
  ttHits :: "64 word"
  killers :: "nat \<Rightarrow> nat \<Rightarrow> Move"
  history :: "int \<Rightarrow> int \<Rightarrow> int"

definition clearHash :: "AI \<Rightarrow> AI" where
  "clearHash ai = ai\<lparr>transTable := (\<lambda>i. TTEntry0), ttAge := 0\<rparr>"

definition clearKillers :: "AI \<Rightarrow> AI" where
  "clearKillers ai = ai\<lparr>killers := (\<lambda>p k. Move0), history := (\<lambda>f t. 0)\<rparr>"

text \<open>The constructor \<open>AI()\<close>.\<close>

definition newAI :: AI where
  "newAI = clearHash (clearKillers
     \<lparr>transTable = (\<lambda>i. TTEntry0), ttAge = 0, ttHits = 0,
      killers = (\<lambda>p k. Move0), history = (\<lambda>f t. 0)\<rparr>)"

text \<open>
  \<open>storeTT\<close>. The three alternatives of the \<open>||\<close> are tested in order; the \<open>int\<close> score
  and depth are narrowed to 16 and 8 bits by the \<open>static_cast\<close>s.
\<close>

definition storeTT :: "AI \<Rightarrow> 64 word \<Rightarrow> int \<Rightarrow> int \<Rightarrow> TTFlag \<Rightarrow> Move \<Rightarrow> AI" where
  "storeTT ai h score depth flag bestMove =
     (let index = unat h mod TT_SIZE;
          entry = transTable ai index;
          replace =
            (if tt_hash entry \<noteq> h then True
             else if depth \<ge> sint (tt_depth entry) then True
             else tt_age entry \<noteq> ttAge ai)
      in if replace then
           ai\<lparr>transTable := (transTable ai)
                (index := \<lparr>tt_hash = h, tt_score = word_of_int score,
                           tt_depth = word_of_int depth, tt_flag = flag,
                           tt_bestMove = bestMove, tt_age = ttAge ai\<rparr>)\<rparr>
         else ai)"

text \<open>
  \<open>probeTT\<close> returns a pointer to the slot or \<open>nullptr\<close>. In \<open>entry.age == ttAge - 1\<close>
  both \<open>uint8_t\<close> operands are promoted to \<open>int\<close> before the subtraction and the comparison.
\<close>

definition probeTT :: "AI \<Rightarrow> 64 word \<Rightarrow> AI \<times> TTEntry option" where
  "probeTT ai h =
     (let index = unat h mod TT_SIZE;
          entry = transTable ai index
      in if tt_hash entry = h \<and>
            (uint (tt_age entry) = uint (ttAge ai) \<or> uint (tt_age entry) = uint (ttAge ai) - 1)
         then (ai\<lparr>ttHits := ttHits ai + 1\<rparr>, Some entry)
         else (ai, None))"

text \<open>The start of \<open>search\<close>: the counters are reset and \<open>ttAge++\<close> wraps at 256.\<close>

definition search_begin :: "AI \<Rightarrow> AI" where
  "search_begin ai = ai\<lparr>ttHits := 0, ttAge := ttAge ai + 1\<rparr>"

text \<open>
  The two places of \<open>alphaBeta\<close> where a score crosses the table: before \<open>storeTT\<close> the
  best score is re-biased by the node's ply, and after a probe hit the stored \<open>int16_t\<close> is
  widened to \<open>int\<close> and re-biased back. Each is two \<open>if\<close> statements in sequence.
\<close>

definition alphaBeta_storeScore :: "int \<Rightarrow> int \<Rightarrow> int" where
  "alphaBeta_storeScore bestScore at_ply =
     (let s1 = (if bestScore > MATE_SCORE - 1000 then bestScore + at_ply else bestScore)
      in if s1 < - MATE_SCORE + 1000 then s1 - at_ply else s1)"

definition alphaBeta_ttScore :: "TTEntry \<Rightarrow> int \<Rightarrow> int" where
  "alphaBeta_ttScore e at_ply =
     (let s0 = sint (tt_score e);
          s1 = (if s0 > MATE_SCORE - 1000 then s0 - at_ply else s0)
      in if s1 < - MATE_SCORE + 1000 then s1 + at_ply else s1)"

text \<open>The engine in its first search, and the engine after 255 searches.\<close>

definition ai_first_search :: AI where
  "ai_first_search = search_begin newAI"

definition ai_after_255 :: AI where
  "ai_after_255 = (search_begin ^^ 255) newAI"

section \<open>Move ordering (ai.cpp)\<close>

definition scoreMove :: "AI \<Rightarrow> Move \<Rightarrow> Game \<Rightarrow> Move \<Rightarrow> int \<Rightarrow> int" where
  "scoreMove ai move g ttMove at_ply =
     (if move = ttMove then 1000000
      else
        (let s0 = (if isCapture move
                   then (if sideToMove g = WHITE then 900000 else 100000) else 0);
             s1 = (if at_ply < 128 then
                     (if move = killers ai (nat at_ply) 0 then s0 + 90000
                      else if move = killers ai (nat at_ply) 1 then s0 + 80000 else s0)
                   else s0);
             s2 = s1 + history ai (from_sq move) (to_sq move);
             s3 = (if sideToMove g = WHITE \<and> to_sq move \<ge> A8 then s2 + 500000 else s2)
         in if sideToMove g = WHITE then s3 + rankOf (to_sq move) * 100 else s3))"

text \<open>
  \<open>std::sort\<close> is the standard library's. The C++ standard fixes its result only as far
  as this: the range holds the same elements, and no element compares before one that
  precedes it. The order of elements that compare equivalent is left open.
\<close>

definition std_sort_result :: "('a \<Rightarrow> 'a \<Rightarrow> bool) \<Rightarrow> 'a list \<Rightarrow> 'a list \<Rightarrow> bool" where
  "std_sort_result cmp xs ys = (mset ys = mset xs \<and> sorted_wrt (\<lambda>a b. \<not> cmp b a) ys)"

text \<open>
  \<open>orderMoves\<close> pairs every move with its score, sorts the pairs with \<open>std::sort\<close> under
  \<open>a.first > b.first\<close>, and writes the second components back: it relates the move list
  before the call to the list after it.
\<close>

inductive orderMoves :: "AI \<Rightarrow> Game \<Rightarrow> Move \<Rightarrow> int \<Rightarrow> Move list \<Rightarrow> Move list \<Rightarrow> bool" where
  "std_sort_result (\<lambda>a b. fst a > fst b)
     (map (\<lambda>m. (scoreMove ai m g ttMove at_ply, m)) moves) scored
   \<Longrightarrow> orderMoves ai g ttMove at_ply moves (map snd scored)"

subsection \<open>\<open>std::sort\<close> as GNU libstdc++ implements it\<close>

text \<open>
  The relation above holds of every conforming library. To follow one call to the list it
  leaves, the sort is modelled a second time, as the GNU library implements it
  (\<open>bits/stl_algo.h\<close>): \<open>std::__introsort_loop\<close> partitions ranges of more than 16 elements
  around the median of three, and \<open>std::__final_insertion_sort\<close> finishes with insertion
  sort. The vector is a list and the iterators are indices into it.

  The library's unguarded loops test no bound: under a strict weak ordering they stop at
  the pivot or at an element that does not compare after the one inserted. Here each of
  them also stops at the end of the list, so that the functions are total for every
  comparator. When the depth limit is used up the library continues with heap sort
  (\<open>std::__partial_sort\<close>), which is not followed here: the result is \<open>None\<close>.
\<close>

definition iter_swap :: "'a list \<Rightarrow> nat \<Rightarrow> nat \<Rightarrow> 'a list" where
  "iter_swap xs i j = xs[i := xs ! j, j := xs ! i]"

definition move_median_to_first ::
  "('a \<Rightarrow> 'a \<Rightarrow> bool) \<Rightarrow> 'a list \<Rightarrow> nat \<Rightarrow> nat \<Rightarrow> nat \<Rightarrow> nat \<Rightarrow> 'a list" where
  "move_median_to_first cmp xs result a b c =
     (if cmp (xs ! a) (xs ! b)
      then (if cmp (xs ! b) (xs ! c) then iter_swap xs result b
            else if cmp (xs ! a) (xs ! c) then iter_swap xs result c
            else iter_swap xs result a)
      else if cmp (xs ! a) (xs ! c) then iter_swap xs result a
      else if cmp (xs ! b) (xs ! c) then iter_swap xs result c
      else iter_swap xs result b)"

text \<open>The two scans of \<open>std::__unguarded_partition\<close>.\<close>

function scan_up :: "('a \<Rightarrow> 'a \<Rightarrow> bool) \<Rightarrow> 'a list \<Rightarrow> nat \<Rightarrow> nat \<Rightarrow> nat" where
  "scan_up cmp xs pivot i =
     (if i < length xs \<and> cmp (xs ! i) (xs ! pivot) then scan_up cmp xs pivot (Suc i) else i)"
  by pat_completeness auto
termination by (relation "measure (\<lambda>(cmp, xs, pivot, i). length xs - i)") auto

function scan_down :: "('a \<Rightarrow> 'a \<Rightarrow> bool) \<Rightarrow> 'a list \<Rightarrow> nat \<Rightarrow> nat \<Rightarrow> nat" where
  "scan_down cmp xs pivot j =
     (if 0 < j \<and> cmp (xs ! pivot) (xs ! j) then scan_down cmp xs pivot (j - 1) else j)"
  by pat_completeness auto
termination by (relation "measure (\<lambda>(cmp, xs, pivot, j). j)") auto

declare scan_up.simps [simp del] scan_down.simps [simp del]

lemma scan_up_ge: "i \<le> scan_up cmp xs pivot i"
  by (induction cmp xs pivot i rule: scan_up.induct) (subst scan_up.simps, auto)

lemma scan_down_le: "scan_down cmp xs pivot j \<le> j"
  by (induction cmp xs pivot j rule: scan_down.induct) (subst scan_down.simps, auto)

function unguarded_partition ::
  "('a \<Rightarrow> 'a \<Rightarrow> bool) \<Rightarrow> 'a list \<Rightarrow> nat \<Rightarrow> nat \<Rightarrow> nat \<Rightarrow> nat \<times> 'a list" where
  "unguarded_partition cmp xs first lst pivot =
     (let f = scan_up cmp xs pivot first;
          l = scan_down cmp xs pivot (lst - 1)
      in if f < l then unguarded_partition cmp (iter_swap xs f l) (Suc f) l pivot
         else (f, xs))"
  by pat_completeness auto
termination
proof (relation "measure (\<lambda>(cmp, xs, first, lst, pivot). lst - first)", goal_cases)
  case 1
  show ?case by simp
next
  case (2 cmp xs first lst pivot f l)
  then show ?case
    using scan_up_ge [of first cmp xs pivot] scan_down_le [of cmp xs pivot "lst - 1"] by simp
qed

declare unguarded_partition.simps [simp del]

definition unguarded_partition_pivot ::
  "('a \<Rightarrow> 'a \<Rightarrow> bool) \<Rightarrow> 'a list \<Rightarrow> nat \<Rightarrow> nat \<Rightarrow> nat \<times> 'a list" where
  "unguarded_partition_pivot cmp xs first lst =
     (let mid = first + (lst - first) div 2;
          ys = move_median_to_first cmp xs first (first + 1) mid (lst - 1)
      in unguarded_partition cmp ys (first + 1) lst first)"

fun introsort_loop ::
  "('a \<Rightarrow> 'a \<Rightarrow> bool) \<Rightarrow> nat \<Rightarrow> nat \<Rightarrow> nat \<Rightarrow> 'a list \<Rightarrow> 'a list option" where
  "introsort_loop cmp 0 first lst xs = (if lst - first > 16 then None else Some xs)"
| "introsort_loop cmp (Suc depth_limit) first lst xs =
     (if lst - first > 16
      then (case unguarded_partition_pivot cmp xs first lst of
              (cutpos, ys) \<Rightarrow>
                (case introsort_loop cmp depth_limit cutpos lst ys of
                   None \<Rightarrow> None
                 | Some zs \<Rightarrow> introsort_loop cmp depth_limit first cutpos zs))
      else Some xs)"

function unguarded_linear_insert ::
  "('a \<Rightarrow> 'a \<Rightarrow> bool) \<Rightarrow> 'a \<Rightarrow> 'a list \<Rightarrow> nat \<Rightarrow> 'a list" where
  "unguarded_linear_insert cmp val xs lst =
     (if 0 < lst \<and> cmp val (xs ! (lst - 1))
      then unguarded_linear_insert cmp val (xs[lst := xs ! (lst - 1)]) (lst - 1)
      else xs[lst := val])"
  by pat_completeness auto
termination by (relation "measure (\<lambda>(cmp, val, xs, lst). lst)") auto

declare unguarded_linear_insert.simps [simp del]

definition insertion_sort ::
  "('a \<Rightarrow> 'a \<Rightarrow> bool) \<Rightarrow> 'a list \<Rightarrow> nat \<Rightarrow> nat \<Rightarrow> 'a list" where
  "insertion_sort cmp xs first lst =
     fold (\<lambda>i ys. if cmp (ys ! i) (ys ! first)
                   then take first ys @ [ys ! i] @ take (i - first) (drop first ys) @ drop (Suc i) ys
                   else unguarded_linear_insert cmp (ys ! i) ys i)
          [Suc first..<lst] xs"

definition unguarded_insertion_sort ::
  "('a \<Rightarrow> 'a \<Rightarrow> bool) \<Rightarrow> 'a list \<Rightarrow> nat \<Rightarrow> nat \<Rightarrow> 'a list" where
  "unguarded_insertion_sort cmp xs first lst =
     fold (\<lambda>i ys. unguarded_linear_insert cmp (ys ! i) ys i) [first..<lst] xs"

definition final_insertion_sort ::
  "('a \<Rightarrow> 'a \<Rightarrow> bool) \<Rightarrow> 'a list \<Rightarrow> nat \<Rightarrow> nat \<Rightarrow> 'a list" where
  "final_insertion_sort cmp xs first lst =
     (if lst - first > 16
      then unguarded_insertion_sort cmp (insertion_sort cmp xs first (first + 16)) (first + 16) lst
      else insertion_sort cmp xs first lst)"

text \<open>\<open>std::__lg\<close>: the position of the highest set bit.\<close>

fun lg :: "nat \<Rightarrow> nat" where
  "lg n = (if n < 2 then 0 else Suc (lg (n div 2)))"

declare lg.simps [simp del]

definition std_sort :: "('a \<Rightarrow> 'a \<Rightarrow> bool) \<Rightarrow> 'a list \<Rightarrow> 'a list option" where
  "std_sort cmp xs =
     (if xs = [] then Some xs
      else (case introsort_loop cmp (lg (length xs) * 2) 0 (length xs) xs of
              None \<Rightarrow> None
            | Some ys \<Rightarrow> Some (final_insertion_sort cmp ys 0 (length ys))))"

text \<open>\<open>orderMoves\<close> with the sort of GNU libstdc++: the move list after the call.\<close>

definition orderMoves_gnu :: "AI \<Rightarrow> Game \<Rightarrow> Move \<Rightarrow> int \<Rightarrow> Move list \<Rightarrow> Move list option" where
  "orderMoves_gnu ai g ttMove at_ply moves =
     map_option (map snd)
       (std_sort (\<lambda>a b. fst a > fst b) (map (\<lambda>m. (scoreMove ai m g ttMove at_ply, m)) moves))"

text \<open>
  The state of the insertion sort of \<open>xs\<close> after \<open>k\<close> elements: the same elements, the
  first \<open>k\<close> of them in non-increasing order of \<open>f\<close>.
\<close>

definition sorted_prefix :: "('a \<Rightarrow> 'b :: linorder) \<Rightarrow> 'a list \<Rightarrow> nat \<Rightarrow> 'a list \<Rightarrow> bool" where
  "sorted_prefix f xs k ys =
     (length ys = length xs \<and> mset ys = mset xs \<and> sorted (map f (rev (take k ys))))"


section \<open>The moves of one pawn\<close>

text \<open>What the moves generated for the pawn on \<open>from\<close> look like: a push, a double push or a capture.\<close>

definition pawnMoveOf :: "Bitboard \<Rightarrow> Bitboard \<Rightarrow> int \<Rightarrow> Move \<Rightarrow> bool" where
  "pawnMoveOf occupied q from m =
     ((from + 8 < 64 \<and> occupied AND squareBB (from + 8) = 0 \<and> m = mkMove from (from + 8) QUIET) \<or>
      (rankOf from = 1 \<and> occupied AND squareBB (from + 16) = 0 \<and> m = mkMove from (from + 16) DOUBLE_PUSH) \<or>
      (from + 7 < 64 \<and> q AND squareBB (from + 7) \<noteq> 0 \<and> m = mkMove from (from + 7) CAPTURE) \<or>
      (from + 9 < 64 \<and> q AND squareBB (from + 9) \<noteq> 0 \<and> m = mkMove from (from + 9) CAPTURE))"

section \<open>The fingerprint by its definition\<close>

text \<open>
  The fingerprint as the specification states it, computed from scratch: the XOR of
  \<open>pawnKeys[s]\<close> over the squares \<open>s\<close> of the pawn set, of \<open>queenKeys[s]\<close> over the squares
  of the queen set, and of \<open>sideKey\<close> when the second side is to move.
\<close>

primrec keysXor :: "(int \<Rightarrow> 64 word) \<Rightarrow> Bitboard \<Rightarrow> nat list \<Rightarrow> 64 word" where
  "keysXor keys bb [] = 0"
| "keysXor keys bb (sq # sqs) = (if bit bb sq then keys (int sq) else 0) XOR keysXor keys bb sqs"

definition zobristHash :: "Game \<Rightarrow> 64 word" where
  "zobristHash g =
     keysXor pawnKeys (pawns g) [0..<64] XOR keysXor queenKeys (queen g) [0..<64] XOR
     (if sideToMove g = BLACK then sideKey else 0)"

section \<open>Positions of legal play\<close>

text \<open>The three facts that legal play keeps.\<close>

definition position_ok :: "Game \<Rightarrow> bool" where
  "position_ok g =
     (pawns g AND queen g = 0 \<and> queen g AND (queen g - 1) = 0 \<and> hash g = zobristHash g)"

text \<open>The positions played by \<open>n\<close> accepted moves from a position with the three facts.\<close>

inductive played :: "nat \<Rightarrow> Game \<Rightarrow> bool" where
  played_start: "position_ok g \<Longrightarrow> played 0 g"
| played_move:
    "played n g \<Longrightarrow> m \<in> set (generateLegalMoves g) \<Longrightarrow> played (Suc n) (snd (makeMove g m))"

text \<open>
  The states reached from the constructor, from \<open>setPosition\<close> with disjoint sets and at
  most one queen bit, or from \<open>reset\<close> called in any state, by calls of \<open>makeMove\<close> that
  return true and by calls of \<open>unmakeMove\<close> that reverse one of these moves. The number
  counts the moves made and not yet reversed since the last constructor, \<open>setPosition\<close> or
  \<open>reset\<close>; \<open>unmakeMove\<close> is followed only while it is positive.
\<close>

inductive legal_reach :: "nat \<Rightarrow> Game \<Rightarrow> bool" where
  reach_new: "legal_reach 0 newGame"
| reach_setPosition:
    "p AND q = 0 \<Longrightarrow> q AND (q - 1) = 0 \<Longrightarrow> legal_reach 0 (setPosition g p q side)"
| reach_reset: "legal_reach 0 (reset g)"
| reach_makeMove:
    "legal_reach n g \<Longrightarrow> fst (makeMove g m) \<Longrightarrow> legal_reach (Suc n) (snd (makeMove g m))"
| reach_unmakeMove: "legal_reach (Suc n) g \<Longrightarrow> legal_reach n (snd (unmakeMove g))"

section \<open>Facts about bit scanning\<close>

lemma word64_nonzero_bit:
  fixes bb :: Bitboard
  assumes "bb \<noteq> 0"
  shows "\<exists>n<64. bit bb n"
proof -
  from assms obtain n where n: "bit bb n"
    by (auto simp: bit_eq_iff)
  then have "n < 64" using bit_imp_le_length [of bb n] by simp
  with n show ?thesis by blast
qed

lemma lsb_props:
  assumes "bb \<noteq> 0"
  shows "0 \<le> lsb bb" and "lsb bb < 64" and "bit bb (nat (lsb bb))"
    and "\<forall>j < nat (lsb bb). \<not> bit bb j"
proof -
  from word64_nonzero_bit [OF assms] obtain n where n: "n < 64" "bit bb n" by blast
  then have "find (bit bb) [0..<64] \<noteq> None"
    by (auto simp: find_None_iff)
  then obtain k where k: "find (bit bb) [0..<64] = Some k" by blast
  then have kk: "k < 64" "bit bb k" "\<forall>j<k. \<not> bit bb j"
    by (auto simp: find_Some_iff)
  have l: "lsb bb = int k" using assms k by (simp add: lsb_def builtin_ctzll_def)
  show "0 \<le> lsb bb" "lsb bb < 64" "bit bb (nat (lsb bb))" "\<forall>j < nat (lsb bb). \<not> bit bb j"
    using kk l by simp_all
qed

lemma RANK_8_bit: "bit RANK_8 n = (56 \<le> n \<and> n < 64)"
proof -
  have h: "RANK_8 = push_bit 56 (mask 8)" by (simp add: RANK_8_def mask_eq_exp_minus_1)
  show ?thesis by (simp only: h bit_push_bit_iff bit_mask_iff) auto
qed

section \<open>Evaluating the model on concrete positions\<close>

lemmas eval_lsb = lsb_def builtin_ctzll_def upt_rec

lemmas eval_squares = squareBB_def makeSquare_def fileOf_def rankOf_def
  A2_def H2_def A8_def D8_def NO_SQUARE_def QUIET_def DOUBLE_PUSH_def CAPTURE_def
  RANK_2_def RANK_8_def

lemmas eval_move = mkMove_def from_sq_def to_sq_def flags_def isCapture_def Move0_def isValid_def

lemma newGame_fields:
  "pawns newGame = 0xFF00" "queen newGame = 0x0800000000000000" "sideToMove newGame = WHITE"
  "ply newGame = 0" "moveHistory newGame = []"
  by (simp_all add: newGame_def reset_def eval_squares)

lemma newGame_moves:
  "generateLegalMoves newGame =
     map Move [1032, 5640, 1097, 5705, 1162, 5770, 1227, 5835,
               1292, 5900, 1357, 5965, 1422, 6030, 1487, 6095]"
  by (simp add: generateLegalMoves_def generatePawnMoves_def newGame_fields
      pawnLoop.simps eval_lsb eval_squares eval_move pawnMovesFrom_def)

section \<open>The queen's square\<close>

text \<open>
  C9. \<open>getQueenSquare\<close> returns \<open>NO_SQUARE\<close> (64) exactly when the queen set is empty;
  otherwise it returns the index of the lowest set bit of the queen set, which lies
  in 0..63.
\<close>

theorem getQueenSquare_spec:
  "(getQueenSquare g = NO_SQUARE \<longleftrightarrow> queen g = 0) \<and>
   (queen g \<noteq> 0 \<longrightarrow>
      0 \<le> getQueenSquare g \<and> getQueenSquare g < 64 \<and>
      bit (queen g) (nat (getQueenSquare g)) \<and>
      (\<forall>j < nat (getQueenSquare g). \<not> bit (queen g) j))"
  using lsb_props [of "queen g"] by (auto simp: getQueenSquare_def NO_SQUARE_def)

theorem getQueenSquare_spec_witness:
  "queen newGame \<noteq> 0 \<and> getQueenSquare newGame = 59 \<and> bit (queen newGame) 59 \<and>
   (58::nat) < 59 \<and> \<not> bit (queen newGame) 58"
proof -
  have n: "queen newGame \<noteq> 0" by (simp add: newGame_fields)
  have v: "getQueenSquare newGame = 59"
    by (simp add: getQueenSquare_def newGame_fields eval_lsb)
  show ?thesis using getQueenSquare_spec [of newGame] n v by simp
qed

section \<open>Classifying a position\<close>

text \<open>
  C3. \<open>getResult\<close> tests in this order: a pawn on rank 8 (squares 56..63) gives the win by
  promotion; else an empty queen set gives the win by capture; else an empty pawn set
  gives the second side's win; else an empty list of legal moves gives the stalemate
  draw; else the game is ongoing.
\<close>

theorem getResult_priority:
  "getResult g =
     (if (\<exists>sq. 56 \<le> sq \<and> sq < 64 \<and> bit (pawns g) sq) then WHITE_WINS_PROMOTION
      else if (\<forall>sq. \<not> bit (queen g) sq) then WHITE_WINS_CAPTURE
      else if (\<forall>sq. \<not> bit (pawns g) sq) then BLACK_WINS
      else if generateLegalMoves g = [] then DRAW_STALEMATE
      else ONGOING)"
proof -
  have a: "(pawns g AND RANK_8 \<noteq> 0) = (\<exists>sq. 56 \<le> sq \<and> sq < 64 \<and> bit (pawns g) sq)"
    by (auto simp: bit_eq_iff bit_and_iff RANK_8_bit)
  have b: "(w = 0) = (\<forall>sq. \<not> bit w sq)" for w :: Bitboard
    using word64_nonzero_bit [of w] by auto
  show ?thesis
    unfolding getResult_def a b [symmetric] by simp
qed

section \<open>Rejected moves\<close>

text \<open>
  C7. A move that is not in the list of legal moves makes \<open>makeMove\<close> return false and
  leave the whole state as it was: both bit-sets, the side to move, the ply, the
  fingerprint and the undo history.
\<close>

theorem makeMove_illegal_rejected:
  assumes "move \<notin> set (generateLegalMoves g)"
  shows "makeMove g move = (False, g)"
  using assms by (simp add: makeMove_def isLegalMove_def)

theorem makeMove_illegal_rejected_witness:
  "mkMove 8 32 0 \<notin> set (generateLegalMoves newGame) \<and>
   makeMove newGame (mkMove 8 32 0) = (False, newGame)"
proof -
  have h: "mkMove 8 32 0 \<notin> set (generateLegalMoves newGame)"
    by (simp add: newGame_moves eval_move)
  show ?thesis using h makeMove_illegal_rejected [OF h] by simp
qed


section \<open>Parsing a move\<close>

lemma of_char_range: "0 \<le> (of_char c :: int)" "(of_char c :: int) < 256"
  by (simp_all add: of_char_def)

lemma char_from_code: "(of_char c :: int) = n \<Longrightarrow> c = char_of n"
  by (metis char_of_char)

lemma fileChar_conv:
  "fileChar c = (0 \<le> char_value c - char_value (CHR ''a'') \<and> char_value c - char_value (CHR ''a'') \<le> 7)"
proof
  assume "fileChar c"
  then show "0 \<le> char_value c - char_value (CHR ''a'') \<and> char_value c - char_value (CHR ''a'') \<le> 7"
    by (auto simp: fileChar_def char_value_def)
next
  assume a: "0 \<le> char_value c - char_value (CHR ''a'') \<and> char_value c - char_value (CHR ''a'') \<le> 7"
  have "char_value (CHR ''a'') = 97" by (simp add: char_value_def)
  with a of_char_range [of c] have "(of_char c :: int) \<in> {97, 98, 99, 100, 101, 102, 103, 104}"
    by (auto simp: char_value_def split: if_splits)
  then have "c \<in> char_of ` {97 :: int, 98, 99, 100, 101, 102, 103, 104}"
    using char_from_code [of c] by blast
  then show "fileChar c"
    by (auto simp: fileChar_def char_of_def)
qed

lemma rankChar_conv:
  "rankChar c = (0 \<le> char_value c - char_value (CHR ''1'') \<and> char_value c - char_value (CHR ''1'') \<le> 7)"
proof
  assume "rankChar c"
  then show "0 \<le> char_value c - char_value (CHR ''1'') \<and> char_value c - char_value (CHR ''1'') \<le> 7"
    by (auto simp: rankChar_def char_value_def)
next
  assume a: "0 \<le> char_value c - char_value (CHR ''1'') \<and> char_value c - char_value (CHR ''1'') \<le> 7"
  have "char_value (CHR ''1'') = 49" by (simp add: char_value_def)
  with a of_char_range [of c] have "(of_char c :: int) \<in> {49, 50, 51, 52, 53, 54, 55, 56}"
    by (auto simp: char_value_def split: if_splits)
  then have "c \<in> char_of ` {49 :: int, 50, 51, 52, 53, 54, 55, 56}"
    using char_from_code [of c] by blast
  then show "rankChar c"
    by (auto simp: rankChar_def char_of_def)
qed

text \<open>
  C10. A string of fewer than 4 characters, or one whose first four characters are not a
  file in \<open>'a'..'h'\<close>, a rank in \<open>'1'..'8'\<close>, a file and a rank, is parsed to the null move
  \<open>Move()\<close>, which is not valid. The string is only indexed after its length is checked.
\<close>

theorem algebraicToMove_rejects:
  assumes "length str < 4 \<or> \<not> fileChar (str ! 0) \<or> \<not> rankChar (str ! 1) \<or>
           \<not> fileChar (str ! 2) \<or> \<not> rankChar (str ! 3)"
  shows "algebraicToMove g str = Move0 \<and> \<not> isValid (algebraicToMove g str)"
proof -
  have "algebraicToMove g str = Move0"
    using assms unfolding algebraicToMove_def fileChar_conv rankChar_conv Let_def
    by auto
  then show ?thesis by (simp add: Move0_def isValid_def)
qed

theorem algebraicToMove_rejects_witness:
  "\<not> rankChar (''a9b2'' ! 1) \<and> algebraicToMove newGame ''a9b2'' = Move0 \<and>
   \<not> isValid (algebraicToMove newGame ''a9b2'') \<and>
   length ''a2'' < 4 \<and> algebraicToMove newGame ''a2'' = Move0"
proof -
  have h: "\<not> rankChar (''a9b2'' ! 1)" by (simp add: rankChar_def)
  show ?thesis
    using h algebraicToMove_rejects [of "''a9b2''" newGame] algebraicToMove_rejects [of "''a2''" newGame]
    by auto
qed


section \<open>Reset and the undo history\<close>

lemma game_a2a3_fields:
  "pawns game_a2a3 = 0x1FE00" "queen game_a2a3 = 0x0800000000000000"
  "sideToMove game_a2a3 = BLACK" "ply game_a2a3 = 1"
  "hash game_a2a3 = (hash newGame XOR pawnKeys 8 XOR pawnKeys 16) XOR sideKey"
  "moveHistory game_a2a3 =
     [\<lparr>undo_move = Move 1032, capturedPiece = 0, undo_hash = hash newGame\<rparr>]"
  by (simp_all add: game_a2a3_def makeMove_def isLegalMove_def newGame_moves newGame_fields
      eval_move eval_squares flipSide_def)

text \<open>
  C8. \<open>reset\<close> keeps the undo history and \<open>setPosition\<close> empties it. So when the history
  is not empty, \<open>unmakeMove\<close> after \<open>reset\<close> succeeds: it pops the record made before the
  reset and applies it to the start position as the undoing of a queen move (the side
  flips from white to black), with ply \<open>-1\<close> and the record's fingerprint.
\<close>

theorem reset_keeps_history:
  "moveHistory (reset g) = moveHistory g \<and>
   moveHistory (setPosition g p q side) = [] \<and>
   (moveHistory g \<noteq> [] \<longrightarrow>
      unmakeMove (reset g) =
        (True,
         \<lparr>pawns = (if isCapture (undo_move (last (moveHistory g)))
                   then RANK_2 OR capturedPiece (last (moveHistory g)) else RANK_2),
          queen = (squareBB D8 AND NOT (squareBB (to_sq (undo_move (last (moveHistory g))))))
                    OR squareBB (from_sq (undo_move (last (moveHistory g)))),
          sideToMove = BLACK,
          hash = undo_hash (last (moveHistory g)),
          ply = - 1,
          moveHistory = butlast (moveHistory g)\<rparr>))"
  by (simp add: reset_def setPosition_def unmakeMove_def flipSide_def Let_def)

theorem reset_keeps_history_witness:
  "moveHistory game_a2a3 \<noteq> [] \<and>
   unmakeMove (reset game_a2a3) =
     (True, \<lparr>pawns = 0xFF00, queen = 0x0800000000000100, sideToMove = BLACK,
             hash = hash newGame, ply = - 1, moveHistory = []\<rparr>)"
proof -
  have h: "moveHistory game_a2a3 \<noteq> []" by (simp add: game_a2a3_fields)
  show ?thesis
    using h reset_keeps_history [of game_a2a3]
    by (simp add: game_a2a3_fields eval_move eval_squares)
qed

section \<open>Moves and bitboards\<close>

lemma mkMove_decode:
  assumes "0 \<le> f" "f < 64" "0 \<le> t" "t < 64" "0 \<le> fl" "fl < 16"
  shows "from_sq (mkMove f t fl) = f" "to_sq (mkMove f t fl) = t" "flags (mkMove f t fl) = fl"
proof -
  have f: "take_bit 6 f = f" using assms by (simp add: take_bit_int_eq_self)
  have t: "take_bit 6 t = t" using assms by (simp add: take_bit_int_eq_self)
  have fl: "take_bit 4 fl = fl" using assms by (simp add: take_bit_int_eq_self)
  have m6: "(0x3F :: 16 word) = mask 6" by (simp add: mask_eq_exp_minus_1)
  have m4: "(0xF :: 16 word) = mask 4" by (simp add: mask_eq_exp_minus_1)
  have "from_sq (mkMove (take_bit 6 f) (take_bit 6 t) (take_bit 4 fl)) = take_bit 6 f"
    unfolding from_sq_def mkMove_def Move.sel m6
    by (rule bit_eqI) (auto simp: bit_simps)
  then show "from_sq (mkMove f t fl) = f" by (simp only: f t fl)
  have "to_sq (mkMove (take_bit 6 f) (take_bit 6 t) (take_bit 4 fl)) = take_bit 6 t"
    unfolding to_sq_def mkMove_def Move.sel m6
    by (rule bit_eqI) (auto simp: bit_simps)
  then show "to_sq (mkMove f t fl) = t" by (simp only: f t fl)
  have "flags (mkMove (take_bit 6 f) (take_bit 6 t) (take_bit 4 fl)) = take_bit 4 fl"
    unfolding flags_def mkMove_def Move.sel m4
    by (rule bit_eqI) (auto simp: bit_simps)
  then show "flags (mkMove f t fl) = fl" by (simp only: f t fl)
qed

lemma squareBB_bit: "0 \<le> sq \<Longrightarrow> sq < 64 \<Longrightarrow> bit (squareBB sq) n = (n = nat sq)"
  by (auto simp: squareBB_def bit_simps)

lemma squareBB_and: "0 \<le> sq \<Longrightarrow> sq < 64 \<Longrightarrow> (bb AND squareBB sq = 0) = (\<not> bit bb (nat sq))"
proof -
  assume sq: "0 \<le> sq" "sq < 64"
  have "(bb AND squareBB sq = 0) = (\<forall>n<64. \<not> bit (bb AND squareBB sq) n)"
    using bit_eq_iff [of "bb AND squareBB sq" 0] by simp
  also have "\<dots> = (\<not> bit bb (nat sq))"
  proof -
    have "nat sq < 64" using sq by simp
    then show ?thesis using sq by (auto simp: bit_and_iff squareBB_bit)
  qed
  finally show ?thesis .
qed

lemma move_piece_back:
  fixes p :: Bitboard
  assumes "bit p (nat f)" "\<not> bit p (nat t)" "0 \<le> f" "f < 64" "0 \<le> t" "t < 64"
  shows "(((p AND NOT (squareBB f)) OR squareBB t) AND NOT (squareBB t)) OR squareBB f = p"
  using assms by (intro bit_eqI) (auto simp: bit_simps squareBB_bit)

lemma capture_back:
  fixes p :: Bitboard
  assumes "bit p (nat t)" "0 \<le> t" "t < 64"
  shows "(p AND NOT (squareBB t)) OR squareBB t = p"
  using assms by (intro bit_eqI) (auto simp: bit_simps squareBB_bit)



section \<open>Executing and reversing a move\<close>

lemma pawnMovesFrom_set:
  "m \<in> set (pawnMovesFrom from occupied q moves) \<Longrightarrow>
     m \<in> set moves \<or> pawnMoveOf occupied q from m"
  by (auto simp: pawnMovesFrom_def pawnMoveOf_def Let_def split: if_splits)

lemma pawnLoop_set:
  "m \<in> set (pawnLoop bb occupied q moves) \<Longrightarrow>
     m \<in> set moves \<or>
     (\<exists>from. 0 \<le> from \<and> from < 64 \<and> bit bb (nat from) \<and> pawnMoveOf occupied q from m)"
proof (induction bb occupied q moves rule: pawnLoop.induct)
  case (1 bb occupied q moves)
  show ?case
  proof (cases "bb = 0")
    case True
    with 1(2) show ?thesis by (simp add: pawnLoop.simps)
  next
    case False
    note l = lsb_props [OF False]
    have "pawnLoop bb occupied q moves =
          pawnLoop (bb AND (bb - 1)) occupied q (pawnMovesFrom (lsb bb) occupied q moves)"
      using False by (subst pawnLoop.simps) simp
    with 1(2)
    have "m \<in> set (pawnLoop (bb AND (bb - 1)) occupied q (pawnMovesFrom (lsb bb) occupied q moves))"
      by simp
    from 1(1) [OF False this]
    consider "m \<in> set (pawnMovesFrom (lsb bb) occupied q moves)"
      | sq where "0 \<le> sq" "sq < 64" "bit (bb AND (bb - 1)) (nat sq)"
          "pawnMoveOf occupied q sq m"
      by blast
    then show ?thesis
    proof cases
      case 1
      then show ?thesis using pawnMovesFrom_set [OF 1] l by blast
    next
      case 2
      then have "bit bb (nat sq)" by (simp add: bit_and_iff)
      with 2 show ?thesis by blast
    qed
  qed
qed

lemma queenLoop_set:
  "m \<in> set (queenLoop from flag bb moves) \<Longrightarrow>
     m \<in> set moves \<or>
     (\<exists>to. 0 \<le> to \<and> to < 64 \<and> bit bb (nat to) \<and> m = mkMove from to flag)"
proof (induction "from" flag bb moves rule: queenLoop.induct)
  case (1 "from" flag bb moves)
  show ?case
  proof (cases "bb = 0")
    case True
    with 1(2) show ?thesis by (simp add: queenLoop.simps)
  next
    case False
    note l = lsb_props [OF False]
    have "queenLoop from flag bb moves =
          queenLoop from flag (bb AND (bb - 1)) (moves @ [mkMove from (lsb bb) flag])"
      using False by (subst queenLoop.simps) simp
    with 1(2)
    have "m \<in> set (queenLoop from flag (bb AND (bb - 1)) (moves @ [mkMove from (lsb bb) flag]))"
      by simp
    from 1(1) [OF False this]
    consider "m \<in> set (moves @ [mkMove from (lsb bb) flag])"
      | to where "0 \<le> to" "to < 64" "bit (bb AND (bb - 1)) (nat to)" "m = mkMove from to flag"
      by blast
    then show ?thesis
    proof cases
      case 1
      then show ?thesis using l by auto
    next
      case 2
      then have "bit bb (nat to)" by (simp add: bit_and_iff)
      with 2 show ?thesis by blast
    qed
  qed
qed


lemma flag_ranges:
  "0 \<le> QUIET" "QUIET < 16" "0 \<le> DOUBLE_PUSH" "DOUBLE_PUSH < 16" "0 \<le> CAPTURE" "CAPTURE < 16"
  by (simp_all add: QUIET_def DOUBLE_PUSH_def CAPTURE_def)

lemma flags_simps:
  assumes "0 \<le> f" "f < 64" "0 \<le> t" "t < 64"
  shows "\<not> isCapture (mkMove f t QUIET)" "\<not> isCapture (mkMove f t DOUBLE_PUSH)"
    "isCapture (mkMove f t CAPTURE)"
  using assms by (simp_all add: isCapture_def mkMove_decode QUIET_def DOUBLE_PUSH_def CAPTURE_def)

lemma white_roundtrip:
  assumes "sideToMove g = WHITE" "m \<in> set (generateLegalMoves g)"
    and "0 \<le> from_sq m" "from_sq m < 64" "0 \<le> to_sq m" "to_sq m < 64"
    and "bit (pawns g) (nat (from_sq m))" "\<not> bit (pawns g) (nat (to_sq m))"
  shows "fst (makeMove g m)" and "unmakeMove (snd (makeMove g m)) = (True, g)"
  using assms
  by (simp_all add: makeMove_def unmakeMove_def isLegalMove_def flipSide_def Let_def
      move_piece_back split: prod.splits)

lemma black_roundtrip:
  assumes "sideToMove g = BLACK" "m \<in> set (generateLegalMoves g)"
    and "0 \<le> from_sq m" "from_sq m < 64" "0 \<le> to_sq m" "to_sq m < 64"
    and "bit (queen g) (nat (from_sq m))" "\<not> bit (queen g) (nat (to_sq m))"
    and "isCapture m \<Longrightarrow> bit (pawns g) (nat (to_sq m))"
  shows "fst (makeMove g m)" and "unmakeMove (snd (makeMove g m)) = (True, g)"
  using assms
  by (simp_all add: makeMove_def unmakeMove_def isLegalMove_def flipSide_def Let_def
      move_piece_back capture_back split: prod.splits)


lemma rank1_range: "rankOf sq = 1 \<Longrightarrow> 8 \<le> sq \<and> sq < 16"
  unfolding rankOf_def drop_bit_eq_div by simp presburger

lemma disjoint_bits:
  fixes p q :: Bitboard
  shows "p AND q = 0 \<Longrightarrow> bit q n \<Longrightarrow> \<not> bit p n"
proof
  assume a: "p AND q = 0" "bit q n" "bit p n"
  have "bit (p AND q) n = (bit p n \<and> bit q n)" by (rule bit_and_iff)
  moreover have "\<not> bit (p AND q) n" unfolding a(1) by simp
  ultimately show False using a(2,3) by blast
qed

lemma or_bit_clear:
  fixes p q :: Bitboard
  shows "0 \<le> sq \<Longrightarrow> sq < 64 \<Longrightarrow> (p OR q) AND squareBB sq = 0 \<Longrightarrow>
    \<not> bit p (nat sq) \<and> \<not> bit q (nat sq)"
  by (simp add: squareBB_and bit_or_iff)

text \<open>What a generated move is, by side.\<close>

lemma white_move_facts:
  assumes "sideToMove g = WHITE" "m \<in> set (generateLegalMoves g)" "pawns g AND queen g = 0"
  shows "0 \<le> from_sq m \<and> from_sq m < 64 \<and> 0 \<le> to_sq m \<and> to_sq m < 64 \<and>
         bit (pawns g) (nat (from_sq m)) \<and> \<not> bit (pawns g) (nat (to_sq m)) \<and>
         isCapture m = bit (queen g) (nat (to_sq m))"
proof -
  from assms(1,2) have "m \<in> set (pawnLoop (pawns g) (pawns g OR queen g) (queen g) [])"
    by (simp add: generateLegalMoves_def generatePawnMoves_def)
  from pawnLoop_set [OF this] obtain sq where
    sq: "0 \<le> sq" "sq < 64" "bit (pawns g) (nat sq)"
      "pawnMoveOf (pawns g OR queen g) (queen g) sq m"
    by auto
  from sq(4) consider
    (push) "sq + 8 < 64" "(pawns g OR queen g) AND squareBB (sq + 8) = 0" "m = mkMove sq (sq + 8) QUIET"
    | (double) "rankOf sq = 1" "(pawns g OR queen g) AND squareBB (sq + 16) = 0"
        "m = mkMove sq (sq + 16) DOUBLE_PUSH"
    | (left) "sq + 7 < 64" "queen g AND squareBB (sq + 7) \<noteq> 0" "m = mkMove sq (sq + 7) CAPTURE"
    | (right) "sq + 9 < 64" "queen g AND squareBB (sq + 9) \<noteq> 0" "m = mkMove sq (sq + 9) CAPTURE"
    unfolding pawnMoveOf_def by blast
  then show ?thesis
  proof cases
    case push
    then show ?thesis
      using sq or_bit_clear [of "sq + 8" "pawns g" "queen g"]
      by (simp add: mkMove_decode flag_ranges flags_simps)
  next
    case double
    then show ?thesis
      using sq rank1_range [of sq] or_bit_clear [of "sq + 16" "pawns g" "queen g"]
      by (simp add: mkMove_decode flag_ranges flags_simps)
  next
    case left
    have q: "bit (queen g) (nat (sq + 7))"
      using left sq squareBB_and [of "sq + 7" "queen g"] by auto
    then have "\<not> bit (pawns g) (nat (sq + 7))"
      using assms(3) disjoint_bits by blast
    then show ?thesis using left sq q by (simp add: mkMove_decode flag_ranges flags_simps)
  next
    case right
    have q: "bit (queen g) (nat (sq + 9))"
      using right sq squareBB_and [of "sq + 9" "queen g"] by auto
    then have "\<not> bit (pawns g) (nat (sq + 9))"
      using assms(3) disjoint_bits by blast
    then show ?thesis using right sq q by (simp add: mkMove_decode flag_ranges flags_simps)
  qed
qed

lemma black_move_facts:
  assumes "sideToMove g = BLACK" "m \<in> set (generateLegalMoves g)" "pawns g AND queen g = 0"
  shows "0 \<le> from_sq m \<and> from_sq m < 64 \<and> 0 \<le> to_sq m \<and> to_sq m < 64 \<and>
         bit (queen g) (nat (from_sq m)) \<and> \<not> bit (queen g) (nat (to_sq m)) \<and>
         (isCapture m \<longrightarrow> bit (pawns g) (nat (to_sq m))) \<and>
         from_sq m = lsb (queen g) \<and> queen g \<noteq> 0 \<and>
         (\<not> isCapture m \<longrightarrow> \<not> bit (pawns g) (nat (to_sq m)))"
proof -
  have q: "queen g \<noteq> 0"
    using assms(1,2) by (auto simp: generateLegalMoves_def generateQueenMoves_def)
  note l = lsb_props [OF q]
  define att where "att = queenAttacks (lsb (queen g)) (pawns g OR queen g)"
  from assms(1,2) q
  have "m \<in> set (queenLoop (lsb (queen g)) CAPTURE (att AND pawns g)
          (queenLoop (lsb (queen g)) QUIET (att AND NOT (pawns g OR queen g)) []))"
    by (simp add: generateLegalMoves_def generateQueenMoves_def Let_def att_def)
  from queenLoop_set [OF this] consider
    (quiet) "m \<in> set (queenLoop (lsb (queen g)) QUIET (att AND NOT (pawns g OR queen g)) [])"
    | (capture) to where "0 \<le> to" "to < 64" "bit (att AND pawns g) (nat to)"
        "m = mkMove (lsb (queen g)) to CAPTURE"
    by blast
  then show ?thesis
  proof cases
    case quiet
    from queenLoop_set [OF quiet] obtain to where
      to: "0 \<le> to" "to < 64" "bit (att AND NOT (pawns g OR queen g)) (nat to)"
        "m = mkMove (lsb (queen g)) to QUIET"
      by auto
    then have "\<not> bit (queen g) (nat to)" "\<not> bit (pawns g) (nat to)"
      by (simp_all add: bit_and_iff bit_not_iff bit_or_iff)
    then show ?thesis using to l q by (simp add: mkMove_decode flags_simps flag_ranges)
  next
    case capture
    then have p: "bit (pawns g) (nat to)" by (simp add: bit_and_iff)
    then have "\<not> bit (queen g) (nat to)"
      using assms(3) disjoint_bits [of "queen g" "pawns g"] by (simp add: and.commute)
    then show ?thesis using capture p l q
      by (simp add: mkMove_decode flags_simps flag_ranges)
  qed
qed

lemma make_unmake_roundtrip:
  assumes "pawns g AND queen g = 0" "m \<in> set (generateLegalMoves g)"
  shows "fst (makeMove g m)" and "unmakeMove (snd (makeMove g m)) = (True, g)"
proof -
  show "fst (makeMove g m)" using assms(2) by (simp add: makeMove_def isLegalMove_def Let_def split: prod.splits)
  show "unmakeMove (snd (makeMove g m)) = (True, g)"
  proof (cases "sideToMove g")
    case WHITE
    then show ?thesis using white_move_facts [OF WHITE assms(2,1)] white_roundtrip(2) [OF WHITE assms(2)]
      by blast
  next
    case BLACK
    then show ?thesis using black_move_facts [OF BLACK assms(2,1)] black_roundtrip(2) [OF BLACK assms(2)]
      by blast
  qed
qed



section \<open>A game that leaves the legal positions\<close>

lemmas eval_rays = rayNorth.simps raySouth.simps rayEast.simps rayWest.simps
  rayNE.simps rayNW.simps raySE.simps raySW.simps rookAttacks_def bishopAttacks_def queenAttacks_def

lemmas eval_moves = generateLegalMoves_def generatePawnMoves_def generateQueenMoves_def
  pawnMovesFrom_def pawnLoop.simps queenLoop.simps

lemma makeMove_effect:
  assumes "m \<in> set (generateLegalMoves g)"
  shows "fst (makeMove g m)"
    and "sideToMove (snd (makeMove g m)) = flipSide (sideToMove g)"
    and "ply (snd (makeMove g m)) = ply g + 1"
    and "pawns (snd (makeMove g m)) =
          (if sideToMove g = WHITE
           then (pawns g AND NOT (squareBB (from_sq m))) OR squareBB (to_sq m)
           else if isCapture m then pawns g AND NOT (squareBB (to_sq m)) else pawns g)"
    and "queen (snd (makeMove g m)) =
          (if sideToMove g = WHITE then (if isCapture m then 0 else queen g)
           else (queen g AND NOT (squareBB (from_sq m))) OR squareBB (to_sq m))"
    and "moveHistory (snd (makeMove g m)) =
          moveHistory g @
          [\<lparr>undo_move = m,
            capturedPiece =
              (if isCapture m
               then (if sideToMove g = WHITE then queen g else squareBB (to_sq m)) else 0),
            undo_hash = hash g\<rparr>]"
    and "hash (snd (makeMove g m)) =
          (if sideToMove g = WHITE
           then (if isCapture m then hash g XOR queenKeys (to_sq m) else hash g)
                XOR pawnKeys (from_sq m) XOR pawnKeys (to_sq m)
           else (if isCapture m then hash g XOR pawnKeys (to_sq m) else hash g)
                XOR queenKeys (from_sq m) XOR queenKeys (to_sq m))
          XOR sideKey"
  using assms by (simp_all add: makeMove_def isLegalMove_def Let_def split: prod.splits)

lemma unmakeMove_effect:
  assumes "moveHistory g \<noteq> []"
  shows "fst (unmakeMove g)"
    and "sideToMove (snd (unmakeMove g)) = flipSide (sideToMove g)"
    and "ply (snd (unmakeMove g)) = ply g - 1"
    and "moveHistory (snd (unmakeMove g)) = butlast (moveHistory g)"
    and "hash (snd (unmakeMove g)) = undo_hash (last (moveHistory g))"
    and "pawns (snd (unmakeMove g)) =
          (if sideToMove g = BLACK
           then (pawns g AND NOT (squareBB (to_sq (undo_move (last (moveHistory g))))))
                OR squareBB (from_sq (undo_move (last (moveHistory g))))
           else if isCapture (undo_move (last (moveHistory g)))
                then pawns g OR capturedPiece (last (moveHistory g)) else pawns g)"
    and "queen (snd (unmakeMove g)) =
          (if sideToMove g = BLACK
           then (if isCapture (undo_move (last (moveHistory g)))
                 then capturedPiece (last (moveHistory g)) else queen g)
           else (queen g AND NOT (squareBB (to_sq (undo_move (last (moveHistory g))))))
                OR squareBB (from_sq (undo_move (last (moveHistory g)))))"
  using assms by (cases "sideToMove g"; simp add: unmakeMove_def flipSide_def Let_def)+

lemma game_seven_fields:
  "pawns game_seven = 0x10002F400" "queen game_seven = 0x8" "sideToMove game_seven = BLACK"
  "map (\<lambda>u. (undo_move u, capturedPiece u)) (moveHistory game_seven) =
     [(Move 1032, 0), (Move 17147, 0x800), (Move 1552, 0), (Move 139, 0), (Move 2072, 0),
      (Move 194, 0), (Move 1097, 0)]"
proof -
  define g1 where "g1 = snd (makeMove newGame (Move 1032))"
  have l1: "Move 1032 \<in> set (generateLegalMoves newGame)"
    by (simp add: eval_moves eval_rays newGame_fields eval_lsb eval_squares eval_move)
  have f1: "pawns g1 = 0x1fe00" "queen g1 = 0x800000000000000" "sideToMove g1 = BLACK"
    "map (\<lambda>u. (undo_move u, capturedPiece u)) (moveHistory g1) = [(Move 1032, 0)]"
    unfolding g1_def
    by (simp_all add: makeMove_effect [OF l1] newGame_fields flipSide_def eval_move eval_squares)
  define g2 where "g2 = snd (makeMove g1 (Move 17147))"
  have l2: "Move 17147 \<in> set (generateLegalMoves g1)"
    by (simp add: eval_moves eval_rays f1 eval_lsb eval_squares eval_move)
  have f2: "pawns g2 = 0x1f600" "queen g2 = 0x800" "sideToMove g2 = WHITE"
    "map (\<lambda>u. (undo_move u, capturedPiece u)) (moveHistory g2) = [(Move 1032, 0), (Move 17147, 0x800)]"
    unfolding g2_def
    by (simp_all add: makeMove_effect [OF l2] f1 flipSide_def eval_move eval_squares)
  define g3 where "g3 = snd (makeMove g2 (Move 1552))"
  have l3: "Move 1552 \<in> set (generateLegalMoves g2)"
    by (simp add: eval_moves eval_rays f2 eval_lsb eval_squares eval_move)
  have f3: "pawns g3 = 0x100f600" "queen g3 = 0x800" "sideToMove g3 = BLACK"
    "map (\<lambda>u. (undo_move u, capturedPiece u)) (moveHistory g3) = [(Move 1032, 0), (Move 17147, 0x800), (Move 1552, 0)]"
    unfolding g3_def
    by (simp_all add: makeMove_effect [OF l3] f2 flipSide_def eval_move eval_squares)
  define g4 where "g4 = snd (makeMove g3 (Move 139))"
  have l4: "Move 139 \<in> set (generateLegalMoves g3)"
    by (simp add: eval_moves eval_rays f3 eval_lsb eval_squares eval_move)
  have f4: "pawns g4 = 0x100f600" "queen g4 = 0x4" "sideToMove g4 = WHITE"
    "map (\<lambda>u. (undo_move u, capturedPiece u)) (moveHistory g4) = [(Move 1032, 0), (Move 17147, 0x800), (Move 1552, 0), (Move 139, 0)]"
    unfolding g4_def
    by (simp_all add: makeMove_effect [OF l4] f3 flipSide_def eval_move eval_squares)
  define g5 where "g5 = snd (makeMove g4 (Move 2072))"
  have l5: "Move 2072 \<in> set (generateLegalMoves g4)"
    by (simp add: eval_moves eval_rays f4 eval_lsb eval_squares eval_move)
  have f5: "pawns g5 = 0x10000f600" "queen g5 = 0x4" "sideToMove g5 = BLACK"
    "map (\<lambda>u. (undo_move u, capturedPiece u)) (moveHistory g5) = [(Move 1032, 0), (Move 17147, 0x800), (Move 1552, 0), (Move 139, 0), (Move 2072, 0)]"
    unfolding g5_def
    by (simp_all add: makeMove_effect [OF l5] f4 flipSide_def eval_move eval_squares)
  define g6 where "g6 = snd (makeMove g5 (Move 194))"
  have l6: "Move 194 \<in> set (generateLegalMoves g5)"
    by (simp add: eval_moves eval_rays f5 eval_lsb eval_squares eval_move)
  have f6: "pawns g6 = 0x10000f600" "queen g6 = 0x8" "sideToMove g6 = WHITE"
    "map (\<lambda>u. (undo_move u, capturedPiece u)) (moveHistory g6) = [(Move 1032, 0), (Move 17147, 0x800), (Move 1552, 0), (Move 139, 0), (Move 2072, 0), (Move 194, 0)]"
    unfolding g6_def
    by (simp_all add: makeMove_effect [OF l6] f5 flipSide_def eval_move eval_squares)
  define g7 where "g7 = snd (makeMove g6 (Move 1097))"
  have l7: "Move 1097 \<in> set (generateLegalMoves g6)"
    by (simp add: eval_moves eval_rays f6 eval_lsb eval_squares eval_move)
  have f7: "pawns g7 = 0x10002f400" "queen g7 = 0x8" "sideToMove g7 = BLACK"
    "map (\<lambda>u. (undo_move u, capturedPiece u)) (moveHistory g7) = [(Move 1032, 0), (Move 17147, 0x800), (Move 1552, 0), (Move 139, 0), (Move 2072, 0), (Move 194, 0), (Move 1097, 0)]"
    unfolding g7_def
    by (simp_all add: makeMove_effect [OF l7] f6 flipSide_def eval_move eval_squares)
  have "game_seven = g7"
    by (simp add: game_seven_def g1_def g2_def g3_def g4_def g5_def g6_def g7_def)
  with f7 show "pawns game_seven = 0x10002F400" "queen game_seven = 0x8" "sideToMove game_seven = BLACK"
    "map (\<lambda>u. (undo_move u, capturedPiece u)) (moveHistory game_seven) =
     [(Move 1032, 0), (Move 17147, 0x800), (Move 1552, 0), (Move 139, 0), (Move 2072, 0),
      (Move 194, 0), (Move 1097, 0)]"
    by simp_all
qed


lemma game_stale_fields:
  "pawns game_stale = 0xFF04" "queen game_stale = 0x0800000000000200"
  "sideToMove game_stale = WHITE"
proof -
  define r where "r = reset game_seven"
  have r: "pawns r = 0xFF00" "queen r = 0x0800000000000000" "sideToMove r = WHITE"
    "map (\<lambda>u. (undo_move u, capturedPiece u)) (moveHistory r) =
     [(Move 1032, 0), (Move 17147, 0x800), (Move 1552, 0), (Move 139, 0), (Move 2072, 0),
      (Move 194, 0), (Move 1097, 0)]"
    by (simp_all add: r_def reset_def game_seven_fields eval_squares)
  have r_last: "undo_move (last (moveHistory r)) = Move 1097"
    "map (\<lambda>u. (undo_move u, capturedPiece u)) (butlast (moveHistory r)) =
     [(Move 1032, 0), (Move 17147, 0x800), (Move 1552, 0), (Move 139, 0), (Move 2072, 0),
      (Move 194, 0)]"
    using r(4) by (auto simp: map_eq_append_conv map_eq_Cons_conv)
  have r_ne: "moveHistory r \<noteq> []" using r(4) by auto
  define u where "u = snd (unmakeMove r)"
  have u: "pawns u = 0xFF00" "queen u = 0x0800000000000200" "sideToMove u = BLACK"
    "map (\<lambda>u. (undo_move u, capturedPiece u)) (moveHistory u) =
     [(Move 1032, 0), (Move 17147, 0x800), (Move 1552, 0), (Move 139, 0), (Move 2072, 0),
      (Move 194, 0)]"
    unfolding u_def
    by (simp_all add: unmakeMove_effect [OF r_ne] r r_last flipSide_def eval_move eval_squares)
  have u_last: "undo_move (last (moveHistory u)) = Move 194"
    using u(4) by (auto simp: map_eq_append_conv map_eq_Cons_conv)
  have u_ne: "moveHistory u \<noteq> []" using u(4) by auto
  have gs: "game_stale = snd (unmakeMove u)" by (simp add: game_stale_def u_def r_def)
  show "pawns game_stale = 0xFF04"
    unfolding gs
    by (simp add: unmakeMove_effect [OF u_ne] u u_last flipSide_def eval_move eval_squares)
  show "queen game_stale = 0x0800000000000200"
    unfolding gs
    by (simp add: unmakeMove_effect [OF u_ne] u u_last flipSide_def eval_move eval_squares)
  show "sideToMove game_stale = WHITE"
    unfolding gs
    by (simp add: unmakeMove_effect [OF u_ne] u u_last flipSide_def eval_move eval_squares)
qed

lemma game_stale_capture: "Move 16962 \<in> set (generateLegalMoves game_stale)"
  by (simp add: eval_moves game_stale_fields eval_lsb eval_squares eval_move)

text \<open>
  C1, as amended. In a state whose pawn set and queen set are disjoint, every move of
  \<open>generateLegalMoves\<close> is accepted by \<open>makeMove\<close>, and \<open>unmakeMove\<close> then succeeds and
  gives back the state before the move: both bit-sets, the side to move, the ply, the
  fingerprint and the undo history.
\<close>

theorem makeMove_unmakeMove_roundtrip:
  assumes "pawns g AND queen g = 0" "m \<in> set (generateLegalMoves g)"
  shows "fst (makeMove g m) \<and> unmakeMove (snd (makeMove g m)) = (True, g)"
  using make_unmake_roundtrip [OF assms] by simp

theorem makeMove_unmakeMove_roundtrip_witness:
  "pawns newGame AND queen newGame = 0 \<and> Move 1032 \<in> set (generateLegalMoves newGame) \<and>
   fst (makeMove newGame (Move 1032)) \<and>
   unmakeMove (snd (makeMove newGame (Move 1032))) = (True, newGame)"
proof -
  have d: "pawns newGame AND queen newGame = 0" by (simp add: newGame_fields)
  have l: "Move 1032 \<in> set (generateLegalMoves newGame)" by (simp add: newGame_moves)
  show ?thesis using d l makeMove_unmakeMove_roundtrip [OF d l] by simp
qed

text \<open>
  C1 as stated fails in a state reached through the interface: after seven moves from
  the start, \<open>reset\<close> and two calls of \<open>unmakeMove\<close>, a pawn stands on c1 and b2 holds
  both a pawn and a queen bit. The capture c1xb2 is legal there; executing and reversing
  it loses the pawn on b2.
\<close>

theorem roundtrip_counterexample:
  "Move 16962 \<in> set (generateLegalMoves game_stale) \<and>
   fst (makeMove game_stale (Move 16962)) \<and>
   fst (unmakeMove (snd (makeMove game_stale (Move 16962)))) \<and>
   pawns game_stale = 0xFF04 \<and>
   pawns (snd (unmakeMove (snd (makeMove game_stale (Move 16962))))) = 0xFD04"
proof -
  note l = game_stale_capture
  define g where "g = snd (makeMove game_stale (Move 16962))"
  have g: "pawns g = 0xFF00" "sideToMove g = BLACK"
    "moveHistory g \<noteq> []" "undo_move (last (moveHistory g)) = Move 16962"
    unfolding g_def
    by (simp_all add: makeMove_effect [OF l] game_stale_fields flipSide_def eval_move eval_squares)
  have "pawns (snd (unmakeMove g)) = 0xFD04"
    by (simp add: unmakeMove_effect [OF g(3)] g eval_move eval_squares)
  then show ?thesis
    using l makeMove_effect(1) [OF l] unmakeMove_effect(1) [OF g(3)]
    by (simp add: g_def game_stale_fields)
qed


section \<open>The incremental fingerprint\<close>

lemmas xor_ac = xor.assoc xor.commute xor.left_commute

lemma xor_cancel_left: "a XOR (a XOR b) = (b :: 64 word)"
  by (simp add: xor.assoc [symmetric])

lemma keysXor_toggle:
  assumes "distinct sqs" "\<And>j. j \<in> set sqs \<Longrightarrow> bit bb' j = (bit bb j \<noteq> (j = i))"
  shows "keysXor keys bb' sqs = keysXor keys bb sqs XOR (if i \<in> set sqs then keys (int i) else 0)"
  using assms
proof (induction sqs)
  case Nil
  then show ?case by simp
next
  case (Cons a sqs)
  have IH: "keysXor keys bb' sqs = keysXor keys bb sqs XOR (if i \<in> set sqs then keys (int i) else 0)"
    using Cons by simp
  have a: "bit bb' a = (bit bb a \<noteq> (a = i))" using Cons.prems by simp
  have n: "a = i \<Longrightarrow> i \<notin> set sqs" using Cons.prems by auto
  show ?case
    using n by (auto simp: IH a xor_cancel_left ac_simps)
qed

lemma keysXor_toggle64:
  assumes "i < 64" "\<And>j. j < 64 \<Longrightarrow> bit bb' j = (bit bb j \<noteq> (j = i))"
  shows "keysXor keys bb' [0..<64] = keysXor keys bb [0..<64] XOR keys (int i)"
  using keysXor_toggle [of "[0..<64]" bb' bb i keys] assms by simp

lemma keysXor_zero: "keysXor keys 0 sqs = 0"
  by (induction sqs) simp_all

lemma keysXor_set:
  assumes "0 \<le> t" "t < 64" "\<not> bit bb (nat t)"
  shows "keysXor keys (bb OR squareBB t) [0..<64] = keysXor keys bb [0..<64] XOR keys t"
proof -
  have "bit (bb OR squareBB t) j = (bit bb j \<noteq> (j = nat t))" for j
    using assms by (auto simp: bit_or_iff squareBB_bit)
  from keysXor_toggle64 [of "nat t" "bb OR squareBB t" bb keys, OF _ this]
  show ?thesis using assms by simp
qed

lemma keysXor_clear:
  assumes "0 \<le> f" "f < 64" "bit bb (nat f)"
  shows "keysXor keys (bb AND NOT (squareBB f)) [0..<64] = keysXor keys bb [0..<64] XOR keys f"
proof -
  have "bit (bb AND NOT (squareBB f)) j = (bit bb j \<noteq> (j = nat f))" for j
    using assms bit_imp_le_length [of bb j]
    by (auto simp: bit_and_iff bit_not_iff squareBB_bit)
  from keysXor_toggle64 [of "nat f" "bb AND NOT (squareBB f)" bb keys, OF _ this]
  show ?thesis using assms by simp
qed

lemma keysXor_clear_lowest:
  assumes "bb \<noteq> 0"
  shows "keysXor keys (bb AND (bb - 1)) [0..<64] = keysXor keys bb [0..<64] XOR keys (lsb bb)"
proof -
  note l = lsb_props [OF assms]
  have "bit (bb AND (bb - 1)) j = (bit bb j \<noteq> (j = nat (lsb bb)))" for j
  proof -
    have "(\<exists>k<j. bit bb k) = (nat (lsb bb) < j)" if "bit bb j"
      using l that by (metis linorder_neqE_nat not_less_iff_gr_or_eq)
    then show ?thesis
      using l by (auto simp: word_and_pred_bit [OF assms])
  qed
  from keysXor_toggle64 [of "nat (lsb bb)" "bb AND (bb - 1)" bb keys, OF _ this]
  show ?thesis using l by simp
qed

lemma hashLoop_correct: "hashLoop keys bb h = h XOR keysXor keys bb [0..<64]"
proof (induction keys bb h rule: hashLoop.induct)
  case (1 keys bb h)
  show ?case
  proof (cases "bb = 0")
    case True
    then show ?thesis by (simp add: hashLoop.simps keysXor_zero)
  next
    case False
    have "hashLoop keys bb h = hashLoop keys (bb AND (bb - 1)) (h XOR keys (lsb bb))"
      using False by (subst hashLoop.simps) simp
    also have "\<dots> = (h XOR keys (lsb bb)) XOR keysXor keys (bb AND (bb - 1)) [0..<64]"
      using 1 [OF False] .
    also have "\<dots> = h XOR keysXor keys bb [0..<64]"
      by (simp add: keysXor_clear_lowest [OF False] xor_cancel_left ac_simps)
    finally show ?thesis .
  qed
qed

lemma setPosition_hash: "hash (setPosition g p q side) = zobristHash (setPosition g p q side)"
  by (simp add: setPosition_def zobristHash_def hashLoop_correct Let_def ac_simps)


lemma single_bit:
  fixes q :: Bitboard
  assumes "q AND (q - 1) = 0" "bit q n"
  shows "q = squareBB (int n)"
proof -
  have q: "q \<noteq> 0" using assms(2) by auto
  have n: "n < 64" using bit_imp_le_length [OF assms(2)] by simp
  have no: "\<not> (bit q i \<and> (\<exists>j<i. bit q j))" for i
    using word_and_pred_bit [OF q, of i] assms(1) by simp
  have "bit q i = (i = n)" for i
    using no [of i] no [of n] assms(2) by (metis linorder_neqE_nat)
  then show ?thesis
    using n by (intro bit_eqI) (simp add: squareBB_bit)
qed

lemma squareBB_single: "0 \<le> sq \<Longrightarrow> sq < 64 \<Longrightarrow> squareBB sq AND (squareBB sq - 1) = 0"
proof -
  assume sq: "0 \<le> sq" "sq < 64"
  then have nz: "squareBB sq \<noteq> 0"
    using squareBB_bit [of sq "nat sq"] by auto
  show ?thesis
    using sq by (intro bit_eqI) (simp add: word_and_pred_bit [OF nz] squareBB_bit)
qed

lemma keysXor_square:
  "0 \<le> sq \<Longrightarrow> sq < 64 \<Longrightarrow> keysXor keys (squareBB sq) [0..<64] = keys sq"
  using keysXor_set [of sq 0 keys] by (simp add: keysXor_zero)

lemma white_makeMove_ok:
  assumes ok: "position_ok g" and w: "sideToMove g = WHITE"
    and l: "m \<in> set (generateLegalMoves g)"
  shows "position_ok (snd (makeMove g m))"
proof -
  from ok have d: "pawns g AND queen g = 0" and s: "queen g AND (queen g - 1) = 0"
    and h: "hash g = zobristHash g" by (simp_all add: position_ok_def)
  from white_move_facts [OF w l d]
  have f: "0 \<le> from_sq m" "from_sq m < 64" "0 \<le> to_sq m" "to_sq m < 64"
    "bit (pawns g) (nat (from_sq m))" "\<not> bit (pawns g) (nat (to_sq m))"
    "isCapture m = bit (queen g) (nat (to_sq m))" by simp_all
  note e = makeMove_effect [OF l]
  have nf: "\<not> bit (pawns g AND NOT (squareBB (from_sq m))) (nat (to_sq m))"
    using f by (simp add: bit_and_iff)
  have kp: "keysXor pawnKeys (pawns (snd (makeMove g m))) [0..<64] =
        keysXor pawnKeys (pawns g) [0..<64] XOR pawnKeys (from_sq m) XOR pawnKeys (to_sq m)"
    using w f nf by (simp add: e keysXor_set keysXor_clear xor_ac)
  show ?thesis
  proof (cases "isCapture m")
    case True
    then have q: "queen g = squareBB (to_sq m)"
      using single_bit [OF s, of "nat (to_sq m)"] f by simp
    have "pawns (snd (makeMove g m)) AND queen (snd (makeMove g m)) = 0"
      using w True by (simp add: e)
    moreover have "queen (snd (makeMove g m)) AND (queen (snd (makeMove g m)) - 1) = 0"
      using w True by (simp add: e)
    moreover have "hash (snd (makeMove g m)) = zobristHash (snd (makeMove g m))"
      using w True f h kp
      by (simp add: e(2,5,7) zobristHash_def flipSide_def keysXor_zero q keysXor_square
          xor_cancel_left xor_ac)
    ultimately show ?thesis by (simp add: position_ok_def)
  next
    case False
    then have nq: "\<not> bit (queen g) (nat (to_sq m))" using f by simp
    have "bit (pawns (snd (makeMove g m)) AND queen (snd (makeMove g m))) n = bit (0 :: Bitboard) n" for n
      using w False f nq d disjoint_bits [OF d, of n]
      by (auto simp: e bit_and_iff bit_or_iff bit_not_iff squareBB_bit)
    then have "pawns (snd (makeMove g m)) AND queen (snd (makeMove g m)) = 0"
      by (rule bit_eqI)
    moreover have "queen (snd (makeMove g m)) AND (queen (snd (makeMove g m)) - 1) = 0"
      using w False s by (simp add: e)
    moreover have "hash (snd (makeMove g m)) = zobristHash (snd (makeMove g m))"
      using w False f h kp
      by (simp add: e(2,5,7) zobristHash_def flipSide_def xor_cancel_left xor_ac)
    ultimately show ?thesis by (simp add: position_ok_def)
  qed
qed


lemma black_makeMove_ok:
  assumes ok: "position_ok g" and b: "sideToMove g = BLACK"
    and l: "m \<in> set (generateLegalMoves g)"
  shows "position_ok (snd (makeMove g m))"
proof -
  from ok have d: "pawns g AND queen g = 0" and s: "queen g AND (queen g - 1) = 0"
    and h: "hash g = zobristHash g" by (simp_all add: position_ok_def)
  from black_move_facts [OF b l d]
  have f: "0 \<le> from_sq m" "from_sq m < 64" "0 \<le> to_sq m" "to_sq m < 64"
    "bit (queen g) (nat (from_sq m))" "\<not> bit (queen g) (nat (to_sq m))"
    "isCapture m \<Longrightarrow> bit (pawns g) (nat (to_sq m))"
    "\<not> isCapture m \<Longrightarrow> \<not> bit (pawns g) (nat (to_sq m))" by blast+
  note e = makeMove_effect [OF l]
  have q: "queen g = squareBB (from_sq m)"
    using single_bit [OF s, of "nat (from_sq m)"] f by simp
  have q': "queen (snd (makeMove g m)) = squareBB (to_sq m)"
    using b by (simp add: e q)
  have p': "\<not> bit (pawns (snd (makeMove g m))) (nat (to_sq m))"
    using b f by (auto simp: e bit_and_iff bit_not_iff squareBB_bit)
  have "pawns (snd (makeMove g m)) AND queen (snd (makeMove g m)) = 0"
    using p' f by (simp add: q' squareBB_and)
  moreover have "queen (snd (makeMove g m)) AND (queen (snd (makeMove g m)) - 1) = 0"
    using f by (simp add: q' squareBB_single)
  moreover have "hash (snd (makeMove g m)) = zobristHash (snd (makeMove g m))"
  proof (cases "isCapture m")
    case True
    have "keysXor pawnKeys (pawns (snd (makeMove g m))) [0..<64] =
        keysXor pawnKeys (pawns g) [0..<64] XOR pawnKeys (to_sq m)"
      using b True f by (simp add: e keysXor_clear)
    then show ?thesis
      using b True f h
      by (simp add: e(2,7) q' zobristHash_def flipSide_def q keysXor_square
          xor_cancel_left xor_ac)
  next
    case False
    have "pawns (snd (makeMove g m)) = pawns g" using b False by (simp add: e)
    then show ?thesis
      using b False f h
      by (simp add: e(2,7) q' zobristHash_def flipSide_def q keysXor_square
          xor_cancel_left xor_ac)
  qed
  ultimately show ?thesis by (simp add: position_ok_def)
qed

lemma makeMove_ok:
  assumes "position_ok g" "m \<in> set (generateLegalMoves g)"
  shows "position_ok (snd (makeMove g m))"
  using assms white_makeMove_ok black_makeMove_ok by (cases "sideToMove g") blast+

lemma played_ok: "played n g \<Longrightarrow> position_ok g"
proof (induction rule: played.induct)
  case (played_start g)
  then show ?case .
next
  case (played_move n g m)
  then show ?case by (simp add: makeMove_ok)
qed

lemma played_unmake:
  assumes "played (Suc n) g"
  shows "fst (unmakeMove g)" and "played n (snd (unmakeMove g))"
proof -
  from assms obtain g0 m where g: "g = snd (makeMove g0 m)" and p: "played n g0"
    and l: "m \<in> set (generateLegalMoves g0)"
    by (cases rule: played.cases) auto
  from played_ok [OF p] have "pawns g0 AND queen g0 = 0"
    by (simp add: position_ok_def)
  from make_unmake_roundtrip(2) [OF this l] have u: "unmakeMove g = (True, g0)"
    by (simp add: g)
  show "fst (unmakeMove g)" by (simp add: u)
  show "played n (snd (unmakeMove g))" using p by (simp add: u)
qed

lemma setPosition_ok:
  assumes "p AND q = 0" "q AND (q - 1) = 0"
  shows "position_ok (setPosition g p q side)"
  using assms setPosition_hash [of g p q side]
  by (simp add: position_ok_def) (simp add: setPosition_def Let_def)

lemma newGame_setPosition: "newGame = setPosition g RANK_2 (squareBB D8) WHITE"
  by (simp add: newGame_def reset_def setPosition_def hashLoop.simps eval_lsb eval_squares)

lemma newGame_ok: "position_ok newGame"
proof -
  have "position_ok (setPosition newGame RANK_2 (squareBB D8) WHITE)"
    by (rule setPosition_ok) (simp_all add: eval_squares)
  then show ?thesis using newGame_setPosition [of newGame] by simp
qed

text \<open>\<open>reset\<close> computes the fingerprint of the start position in every state.\<close>

lemma reset_ok: "position_ok (reset g)"
proof -
  have "position_ok (reset g) = position_ok newGame"
    by (simp add: position_ok_def zobristHash_def reset_def newGame_def)
  then show ?thesis by (simp add: newGame_ok)
qed

lemma legal_reach_played: "legal_reach n g \<Longrightarrow> played n g"
proof (induction rule: legal_reach.induct)
  case reach_new
  show ?case by (rule played_start [OF newGame_ok])
next
  case (reach_setPosition p q g side)
  then show ?case by (intro played_start setPosition_ok)
next
  case (reach_reset g)
  show ?case by (rule played_start [OF reset_ok])
next
  case (reach_makeMove n g m)
  then have "m \<in> set (generateLegalMoves g)"
    by (auto simp: makeMove_def isLegalMove_def split: if_splits)
  with reach_makeMove show ?case by (simp add: played_move)
next
  case (reach_unmakeMove n g)
  then show ?case by (simp add: played_unmake)
qed

text \<open>
  In these states every generated move can be executed and reversed, and \<open>unmakeMove\<close>
  succeeds while a move is left to reverse.
\<close>

lemma legal_reach_roundtrip:
  assumes "legal_reach n g" "m \<in> set (generateLegalMoves g)"
  shows "unmakeMove (snd (makeMove g m)) = (True, g)"
proof -
  have "pawns g AND queen g = 0"
    using played_ok [OF legal_reach_played [OF assms(1)]] by (simp add: position_ok_def)
  then show ?thesis using assms(2) by (rule make_unmake_roundtrip(2))
qed

lemma legal_reach_unmake: "legal_reach (Suc n) g \<Longrightarrow> fst (unmakeMove g)"
  using played_unmake(1) [OF legal_reach_played] .

text \<open>
  C2, as amended. In every state reached from the constructor, from \<open>setPosition\<close> with
  a pawn set and a queen set that are disjoint and a queen set of at most one square, or
  from \<open>reset\<close> called in any state, by calls of \<open>makeMove\<close> that return true and by calls
  of \<open>unmakeMove\<close> that reverse a move made since then, the \<open>hash\<close> field equals the
  fingerprint computed from scratch.
\<close>

theorem hash_invariant:
  assumes "legal_reach n g"
  shows "hash g = zobristHash g"
  using played_ok [OF legal_reach_played [OF assms]] by (simp add: position_ok_def)

theorem hash_invariant_witness:
  "legal_reach 1 game_a2a3 \<and> hash game_a2a3 = zobristHash game_a2a3 \<and>
   legal_reach 0 (reset game_a2a3) \<and> hash (reset game_a2a3) = zobristHash (reset game_a2a3) \<and>
   legal_reach 0 (snd (unmakeMove game_a2a3)) \<and>
   hash (snd (unmakeMove game_a2a3)) = zobristHash (snd (unmakeMove game_a2a3))"
proof -
  have "mkMove 8 16 QUIET \<in> set (generateLegalMoves newGame)"
    by (simp add: newGame_moves eval_move eval_squares)
  then have "fst (makeMove newGame (mkMove 8 16 QUIET))"
    by (rule makeMove_effect(1))
  then have "legal_reach (Suc 0) game_a2a3"
    unfolding game_a2a3_def by (rule reach_makeMove [OF reach_new])
  then have r: "legal_reach 1 game_a2a3" and u: "legal_reach 0 (snd (unmakeMove game_a2a3))"
    by (simp_all add: reach_unmakeMove)
  have t: "legal_reach 0 (reset game_a2a3)" by (rule reach_reset)
  show ?thesis
    using r t u hash_invariant [OF r] hash_invariant [OF t] hash_invariant [OF u] by simp
qed

subsection \<open>Three of the keys\<close>

lemma mt_seed_add: "mt_seed (a + b) i x = mt_seed b (i + a) (mt_seed a i x)"
  by (induction a arbitrary: i x) simp_all

lemma mt_seed_numeral:
  "mt_seed (numeral v) i x =
     mt_seed (pred_numeral v) (i + 1)
       ((6364136223846793005 * (x XOR drop_bit 62 x) + (i + 1)) AND 18446744073709551615)"
proof -
  have tb: "take_bit 64 y = y AND 18446744073709551615" for y :: nat
    by (simp add: take_bit_eq_mask mask_eq_exp_minus_1)
  have "mt_seed (numeral v) i x = mt_seed (Suc (pred_numeral v)) i x"
    by (simp only: numeral_eq_Suc)
  also have "\<dots> = mt_seed (pred_numeral v) (i + 1)
       ((6364136223846793005 * (x XOR drop_bit 62 x) + (i + 1)) AND 18446744073709551615)"
    by (simp only: mt_seed.simps tb)
  finally show ?thesis .
qed

text \<open>The seeded state at the words that \<open>queenKeys[A2]\<close>, \<open>pawnKeys[B2]\<close> and \<open>sideKey\<close> are made of.\<close>

lemma seed_17: "mt_seed 17 0 0x1234567890ABCDEF = 5623467998185021066"
  by (simp add: mt_seed_numeral)

lemma seed_18: "mt_seed 18 0 0x1234567890ABCDEF = 17646109552855651201"
proof -
  have "mt_seed 18 0 0x1234567890ABCDEF = mt_seed 1 17 (mt_seed 17 0 0x1234567890ABCDEF)"
    using mt_seed_add [of 17 1 0 "0x1234567890ABCDEF"] by simp
  also have "\<dots> = 17646109552855651201"
    unfolding seed_17 by (simp add: mt_seed_numeral)
  finally show ?thesis .
qed

lemma seed_128: "mt_seed 128 0 0x1234567890ABCDEF = 1809265892663475490"
proof -
  have "mt_seed 128 0 0x1234567890ABCDEF = mt_seed 110 18 (mt_seed 18 0 0x1234567890ABCDEF)"
    using mt_seed_add [of 18 110 0 "0x1234567890ABCDEF"] by simp
  also have "\<dots> = 1809265892663475490"
    unfolding seed_18 by (simp add: mt_seed_numeral)
  finally show ?thesis .
qed

lemma seed_129: "mt_seed 129 0 0x1234567890ABCDEF = 6158547702088080763"
proof -
  have "mt_seed 129 0 0x1234567890ABCDEF = mt_seed 1 128 (mt_seed 128 0 0x1234567890ABCDEF)"
    using mt_seed_add [of 128 1 0 "0x1234567890ABCDEF"] by simp
  also have "\<dots> = 6158547702088080763"
    unfolding seed_128 by (simp add: mt_seed_numeral)
  finally show ?thesis .
qed

lemma seed_173: "mt_seed 173 0 0x1234567890ABCDEF = 16494501552123085712"
proof -
  have "mt_seed 173 0 0x1234567890ABCDEF = mt_seed 44 129 (mt_seed 129 0 0x1234567890ABCDEF)"
    using mt_seed_add [of 129 44 0 "0x1234567890ABCDEF"] by simp
  also have "\<dots> = 16494501552123085712"
    unfolding seed_129 by (simp add: mt_seed_numeral)
  finally show ?thesis .
qed

lemma seed_284: "mt_seed 284 0 0x1234567890ABCDEF = 4334141502359182101"
proof -
  have "mt_seed 284 0 0x1234567890ABCDEF = mt_seed 111 173 (mt_seed 173 0 0x1234567890ABCDEF)"
    using mt_seed_add [of 173 111 0 "0x1234567890ABCDEF"] by simp
  also have "\<dots> = 4334141502359182101"
    unfolding seed_173 by (simp add: mt_seed_numeral)
  finally show ?thesis .
qed

lemma queenKeys_8: "queenKeys 8 = 10802948799190842320"
  by (simp add: queenKeys_def zobrist_rng_def mt_state_def mt_twist_def mt_temper_def
      seed_17 seed_18 seed_173)

lemma sideKey_value: "sideKey = 10344111787783367845"
  by (simp add: sideKey_def zobrist_rng_def mt_state_def mt_twist_def mt_temper_def
      seed_128 seed_129 seed_284)


lemma seed_19: "mt_seed 19 0 0x1234567890ABCDEF = 9538168190879624173"
proof -
  have "mt_seed 19 0 0x1234567890ABCDEF = mt_seed 1 18 (mt_seed 18 0 0x1234567890ABCDEF)"
    using mt_seed_add [of 18 1 0 "0x1234567890ABCDEF"] by simp
  also have "\<dots> = 9538168190879624173"
    unfolding seed_18 by (simp add: mt_seed_numeral)
  finally show ?thesis .
qed

lemma seed_174: "mt_seed 174 0 0x1234567890ABCDEF = 6788390930308042373"
proof -
  have "mt_seed 174 0 0x1234567890ABCDEF = mt_seed 1 173 (mt_seed 173 0 0x1234567890ABCDEF)"
    using mt_seed_add [of 173 1 0 "0x1234567890ABCDEF"] by simp
  also have "\<dots> = 6788390930308042373"
    unfolding seed_173 by (simp add: mt_seed_numeral)
  finally show ?thesis .
qed

lemma pawnKeys_9: "pawnKeys 9 = 1167268825495581825"
  by (simp add: pawnKeys_def zobrist_rng_def mt_state_def mt_twist_def mt_temper_def
      seed_18 seed_19 seed_174)

subsection \<open>After a reset\<close>

lemma stale_after_reset:
  "unmakeMove (reset game_a2a3) =
     (True, \<lparr>pawns = 0xFF00, queen = 0x0800000000000100, sideToMove = BLACK,
             hash = hash newGame, ply = - 1, moveHistory = []\<rparr>)"
  by (simp add: unmakeMove_def reset_def game_a2a3_fields flipSide_def eval_move eval_squares)

lemma stale_zobristHash:
  "zobristHash \<lparr>pawns = 0xFF00, queen = 0x0800000000000100, sideToMove = BLACK,
                hash = h, ply = p, moveHistory = hs\<rparr> =
   hash newGame XOR (queenKeys 8 XOR sideKey)"
  by (simp add: zobristHash_def upt_rec newGame_def reset_def eval_squares xor_ac)

text \<open>
  C2 as stated fails after \<open>reset\<close>: the constructor, \<open>makeMove(a2a3)\<close>, \<open>reset()\<close> and
  \<open>unmakeMove()\<close> all succeed and leave the start position with a second queen bit on a2,
  the second side to move, and the fingerprint of the start position.
\<close>

theorem hash_invariant_counterexample:
  "fst (makeMove newGame (mkMove 8 16 QUIET)) \<and>
   fst (unmakeMove (reset (snd (makeMove newGame (mkMove 8 16 QUIET))))) \<and>
   hash (snd (unmakeMove (reset (snd (makeMove newGame (mkMove 8 16 QUIET)))))) \<noteq>
   zobristHash (snd (unmakeMove (reset (snd (makeMove newGame (mkMove 8 16 QUIET))))))"
proof -
  have "mkMove 8 16 QUIET \<in> set (generateLegalMoves newGame)"
    by (simp add: newGame_moves eval_move eval_squares)
  then have m: "fst (makeMove newGame (mkMove 8 16 QUIET))"
    by (rule makeMove_effect(1))
  have k: "queenKeys 8 XOR sideKey \<noteq> 0"
    by (simp add: queenKeys_8 sideKey_value)
  have "hash newGame \<noteq> hash newGame XOR (queenKeys 8 XOR sideKey)"
  proof
    assume "hash newGame = hash newGame XOR (queenKeys 8 XOR sideKey)"
    then have "hash newGame XOR hash newGame =
        hash newGame XOR (hash newGame XOR (queenKeys 8 XOR sideKey))" by simp
    then have "queenKeys 8 XOR sideKey = 0" by (simp only: xor_cancel_left xor_self_eq)
    with k show False by simp
  qed
  then show ?thesis
    using m by (simp add: game_a2a3_def [symmetric] stale_after_reset stale_zobristHash)
qed



subsection \<open>Positions that \<open>setPosition\<close> accepts and the fingerprint does not survive\<close>

text \<open>
  \<open>makeMove\<close> removes one queen key on a capture and moves one pawn key, so it keeps the
  fingerprint only when there is one queen and no square holds both a pawn and a queen.
\<close>

text \<open>Two queens: the pawn on b2 captures the queen on c3 while a second queen bit stands on a2.\<close>

lemma two_queens_hash:
  "0x200 AND (0x40100 :: Bitboard) = 0 \<and>
   fst (makeMove (setPosition newGame 0x200 0x40100 WHITE) (mkMove 9 18 CAPTURE)) \<and>
   hash (snd (makeMove (setPosition newGame 0x200 0x40100 WHITE) (mkMove 9 18 CAPTURE))) \<noteq>
   zobristHash (snd (makeMove (setPosition newGame 0x200 0x40100 WHITE) (mkMove 9 18 CAPTURE)))"
proof -
  define g where "g = setPosition newGame 0x200 0x40100 WHITE"
  have g: "pawns g = 0x200" "queen g = 0x40100" "sideToMove g = WHITE"
    "hash g = (pawnKeys 9 XOR queenKeys 8) XOR queenKeys 18"
    by (simp_all add: g_def setPosition_def hashLoop.simps eval_lsb)
  define m where "m = mkMove 9 18 CAPTURE"
  have m: "from_sq m = 9" "to_sq m = 18" "isCapture m"
    by (simp_all add: m_def eval_move eval_squares)
  have l: "m \<in> set (generateLegalMoves g)"
    by (simp add: m_def eval_moves g eval_lsb eval_squares eval_move)
  note e = makeMove_effect [OF l]
  have h: "hash (snd (makeMove g m)) = (pawnKeys 18 XOR sideKey) XOR queenKeys 8"
    by (simp add: e g m xor_cancel_left xor_ac)
  have z: "zobristHash (snd (makeMove g m)) = pawnKeys 18 XOR sideKey"
    by (simp add: zobristHash_def e g m flipSide_def eval_squares upt_rec)
  have "(a XOR b \<noteq> a) = (b \<noteq> 0)" for a b :: "64 word"
    by (metis xor_cancel_left xor.right_neutral)
  then have "hash (snd (makeMove g m)) \<noteq> zobristHash (snd (makeMove g m))"
    by (simp add: h z queenKeys_8)
  then show ?thesis using e(1) by (simp add: g_def m_def)
qed

text \<open>A shared square: the pawn on a1 captures the queen on b2, where a pawn stands too.\<close>

lemma shared_square_hash:
  "0x200 AND ((0x200 :: Bitboard) - 1) = 0 \<and>
   fst (makeMove (setPosition newGame 0x201 0x200 WHITE) (mkMove 0 9 CAPTURE)) \<and>
   hash (snd (makeMove (setPosition newGame 0x201 0x200 WHITE) (mkMove 0 9 CAPTURE))) \<noteq>
   zobristHash (snd (makeMove (setPosition newGame 0x201 0x200 WHITE) (mkMove 0 9 CAPTURE)))"
proof -
  define g where "g = setPosition newGame 0x201 0x200 WHITE"
  have g: "pawns g = 0x201" "queen g = 0x200" "sideToMove g = WHITE"
    "hash g = (pawnKeys 0 XOR pawnKeys 9) XOR queenKeys 9"
    by (simp_all add: g_def setPosition_def hashLoop.simps eval_lsb)
  define m where "m = mkMove 0 9 CAPTURE"
  have m: "from_sq m = 0" "to_sq m = 9" "isCapture m"
    by (simp_all add: m_def eval_move eval_squares)
  have l: "m \<in> set (generateLegalMoves g)"
    by (simp add: m_def eval_moves g eval_lsb eval_squares eval_move)
  note e = makeMove_effect [OF l]
  have h: "hash (snd (makeMove g m)) = sideKey"
    by (simp add: e g m xor_cancel_left xor_ac)
  have z: "zobristHash (snd (makeMove g m)) = sideKey XOR pawnKeys 9"
    by (simp add: zobristHash_def e g m flipSide_def eval_squares upt_rec xor_ac)
  have "(a \<noteq> a XOR b) = (b \<noteq> 0)" for a b :: "64 word"
    by (metis xor_cancel_left xor.right_neutral)
  then have "hash (snd (makeMove g m)) \<noteq> zobristHash (snd (makeMove g m))"
    by (simp add: h z pawnKeys_9)
  then show ?thesis using e(1) by (simp add: g_def m_def)
qed

section \<open>Mate scores through the table\<close>

text \<open>
  A stored score is an \<open>int16_t\<close>, so what a probe reads lies between -32768 and 32767:
  neither re-biasing test of the read side can hold, and the read score is the stored
  field as it is.
\<close>

lemma alphaBeta_ttScore_plain: "alphaBeta_ttScore e at_ply = sint (tt_score e)"
proof -
  have "sint (tt_score e) < 2 ^ 15" "- (2 ^ 15) \<le> sint (tt_score e)"
    using sint_lt [of "tt_score e"] sint_ge [of "tt_score e"] by simp_all
  then show ?thesis by (simp add: alphaBeta_ttScore_def MATE_SCORE_def Let_def)
qed

text \<open>
  C4, at a failing input. A node at ply 2 finds a mate one ply below: its best score is
  \<open>MATE_SCORE - 3 = 99997\<close>, re-biased to 99999 for the table. \<open>storeTT\<close> narrows it to
  \<open>int16_t\<close>, which gives -31073; the probe at the same node finds the entry and reads
  -31073, not 99997.
\<close>

theorem mate_score_lost_in_table:
  "alphaBeta_storeScore 99997 2 = 99999 \<and>
   snd (probeTT (storeTT ai_first_search (hash newGame) (alphaBeta_storeScore 99997 2) 3
                   TT_EXACT Move0)
          (hash newGame)) =
     Some \<lparr>tt_hash = hash newGame, tt_score = word_of_int 99999, tt_depth = 3,
           tt_flag = TT_EXACT, tt_bestMove = Move0, tt_age = 1\<rparr> \<and>
   sint (word_of_int 99999 :: 16 word) = - 31073 \<and>
   alphaBeta_ttScore \<lparr>tt_hash = hash newGame, tt_score = word_of_int 99999, tt_depth = 3,
                      tt_flag = TT_EXACT, tt_bestMove = Move0, tt_age = 1\<rparr> 2 = - 31073"
  by (simp add: alphaBeta_storeScore_def alphaBeta_ttScore_def MATE_SCORE_def storeTT_def
      probeTT_def ai_first_search_def search_begin_def newAI_def clearHash_def clearKillers_def
      TTEntry0_def Let_def)

section \<open>The freshness window of the table\<close>

lemma searches_ttAge: "ttAge ((search_begin ^^ n) ai) = ttAge ai + of_nat n"
  by (induction n) (simp_all add: search_begin_def)

lemma searches_transTable: "transTable ((search_begin ^^ n) ai) = transTable ai"
  by (induction n) (simp_all add: search_begin_def)

lemma ai_after_255_fields:
  "ttAge ai_after_255 = 255" "transTable ai_after_255 = (\<lambda>i. TTEntry0)"
  by (simp_all add: ai_after_255_def searches_ttAge searches_transTable newAI_def
      clearHash_def clearKillers_def)

text \<open>
  When \<open>probeTT\<close> hits: the fingerprint matches and the tag is the current generation, or
  the one before it unless the current generation is 0.
\<close>

lemma probeTT_hit_iff:
  "(snd (probeTT ai h) \<noteq> None) =
   (tt_hash (transTable ai (unat h mod TT_SIZE)) = h \<and>
    (tt_age (transTable ai (unat h mod TT_SIZE)) = ttAge ai \<or>
     ttAge ai \<noteq> 0 \<and> tt_age (transTable ai (unat h mod TT_SIZE)) = ttAge ai - 1))"
proof -
  have a: "(uint x = uint y) = (x = y)" for x y :: "8 word"
    by (auto simp: word_uint_eq_iff)
  have b: "(uint x = uint y - 1) = (y \<noteq> 0 \<and> x = y - 1)" for x y :: "8 word"
  proof (cases "y = 0")
    case True
    have "0 \<le> uint x" by simp
    then have "uint x \<noteq> - 1" by arith
    with True show ?thesis by simp
  next
    case False
    then have "uint (y - 1) = uint y - 1"
      using uint_minus_simple_alt word_le_sub1 by force
    then show ?thesis using False by (metis word_uint_eq_iff)
  qed
  show ?thesis by (simp add: probeTT_def Let_def a b)
qed

text \<open>
  C5, at a failing input. In search number 255 the start position is stored with
  generation tag 255. Search number 256 increments the 8-bit counter to 0. Its probe of
  the same fingerprint compares the tag 255 with 0 and with \<open>0 - 1 = -1\<close>, computed in
  \<open>int\<close>, and misses the entry of the preceding search.
\<close>

theorem probeTT_miss_at_wrap:
  "ttAge ai_after_255 = 255 \<and>
   ttAge (search_begin (storeTT ai_after_255 (hash newGame) 0 1 TT_EXACT Move0)) = 0 \<and>
   transTable (search_begin (storeTT ai_after_255 (hash newGame) 0 1 TT_EXACT Move0))
     (unat (hash newGame) mod TT_SIZE) =
     \<lparr>tt_hash = hash newGame, tt_score = 0, tt_depth = 1, tt_flag = TT_EXACT,
      tt_bestMove = Move0, tt_age = 255\<rparr> \<and>
   snd (probeTT (search_begin (storeTT ai_after_255 (hash newGame) 0 1 TT_EXACT Move0))
          (hash newGame)) = None"
  by (simp add: storeTT_def probeTT_def search_begin_def ai_after_255_fields TTEntry0_def Let_def)

section \<open>Ordering the moves\<close>

lemma scored_snd:
  "map snd (map (\<lambda>m. (f m, m)) moves) = moves"
  by (induction moves) simp_all

subsection \<open>The sort of GNU libstdc++ keeps the contract of \<open>std::sort\<close>\<close>

lemma iter_swap_length: "length (iter_swap xs i j) = length xs"
  by (simp add: iter_swap_def)

lemma iter_swap_mset:
  "i < length xs \<Longrightarrow> j < length xs \<Longrightarrow> mset (iter_swap xs i j) = mset xs"
  by (simp add: iter_swap_def mset_swap)

lemma move_median_to_first_length:
  "length (move_median_to_first cmp xs r a b c) = length xs"
  by (simp add: move_median_to_first_def iter_swap_length)

lemma move_median_to_first_mset:
  "r < length xs \<Longrightarrow> a < length xs \<Longrightarrow> b < length xs \<Longrightarrow> c < length xs \<Longrightarrow>
   mset (move_median_to_first cmp xs r a b c) = mset xs"
  by (simp add: move_median_to_first_def iter_swap_mset)

lemma scan_up_le: "i \<le> length xs \<Longrightarrow> scan_up cmp xs pivot i \<le> length xs"
  by (induction cmp xs pivot i rule: scan_up.induct) (subst scan_up.simps, auto)

lemma unguarded_partition_props:
  "first \<le> length xs \<Longrightarrow> lst \<le> length xs \<Longrightarrow>
   fst (unguarded_partition cmp xs first lst pivot) \<le> length xs \<and>
   length (snd (unguarded_partition cmp xs first lst pivot)) = length xs \<and>
   mset (snd (unguarded_partition cmp xs first lst pivot)) = mset xs"
proof (induction cmp xs first lst pivot rule: unguarded_partition.induct)
  case (1 cmp xs first lst pivot)
  define f where "f = scan_up cmp xs pivot first"
  define l where "l = scan_down cmp xs pivot (lst - 1)"
  have fl: "f \<le> length xs" using 1(2) by (simp add: f_def scan_up_le)
  have ll: "l \<le> lst - 1" by (simp add: l_def scan_down_le)
  show ?case
  proof (cases "f < l")
    case True
    have b: "f < length xs" "l < length xs" "Suc f \<le> length xs" "l \<le> length xs"
      using True ll 1(3) by simp_all
    have ih: "fst (unguarded_partition cmp (iter_swap xs f l) (Suc f) l pivot) \<le> length xs \<and>
      length (snd (unguarded_partition cmp (iter_swap xs f l) (Suc f) l pivot)) = length xs \<and>
      mset (snd (unguarded_partition cmp (iter_swap xs f l) (Suc f) l pivot)) = mset xs"
      using 1(1) [OF f_def l_def True] b by (simp add: iter_swap_length iter_swap_mset)
    have "unguarded_partition cmp xs first lst pivot =
          unguarded_partition cmp (iter_swap xs f l) (Suc f) l pivot"
      using True unfolding f_def l_def by (subst unguarded_partition.simps) (simp add: Let_def)
    then show ?thesis using ih by simp
  next
    case False
    have "unguarded_partition cmp xs first lst pivot = (f, xs)"
      using False unfolding f_def l_def by (subst unguarded_partition.simps) (simp add: Let_def)
    then show ?thesis using fl by simp
  qed
qed

lemma unguarded_partition_pivot_props:
  assumes "lst \<le> length xs" "16 < lst - first"
    and "unguarded_partition_pivot cmp xs first lst = (cutpos, ys)"
  shows "cutpos \<le> length xs \<and> length ys = length xs \<and> mset ys = mset xs"
proof -
  define mid where "mid = first + (lst - first) div 2"
  define zs where "zs = move_median_to_first cmp xs first (first + 1) mid (lst - 1)"
  have "mid < lst" using assms(2) unfolding mid_def by linarith
  then have z: "length zs = length xs" "mset zs = mset xs"
    using assms(1,2) by (simp_all add: zs_def move_median_to_first_length move_median_to_first_mset)
  have u: "unguarded_partition cmp zs (first + 1) lst first = (cutpos, ys)"
    using assms(3) by (simp add: unguarded_partition_pivot_def Let_def mid_def zs_def)
  show ?thesis
    using unguarded_partition_props [of "first + 1" zs lst cmp first] assms(1,2) z u by simp
qed

lemma introsort_loop_props:
  "lst \<le> length xs \<Longrightarrow> introsort_loop cmp depth_limit first lst xs = Some ys \<Longrightarrow>
   length ys = length xs \<and> mset ys = mset xs"
proof (induction depth_limit arbitrary: first lst xs ys)
  case 0
  then show ?case by (simp split: if_splits)
next
  case (Suc d)
  show ?case
  proof (cases "16 < lst - first")
    case False
    then show ?thesis using Suc.prems by simp
  next
    case True
    obtain cutpos zs where p: "unguarded_partition_pivot cmp xs first lst = (cutpos, zs)"
      by (cases "unguarded_partition_pivot cmp xs first lst")
    note pp = unguarded_partition_pivot_props [OF Suc.prems(1) True p]
    from Suc.prems(2) True p obtain ws where
      w: "introsort_loop cmp d cutpos lst zs = Some ws" and
      y: "introsort_loop cmp d first cutpos ws = Some ys"
      by (auto split: option.splits)
    have w': "length ws = length zs \<and> mset ws = mset zs"
      using Suc.IH [OF _ w] pp Suc.prems(1) by simp
    have "length ys = length ws \<and> mset ys = mset ws"
      using Suc.IH [OF _ y] pp w' by simp
    then show ?thesis using w' pp by simp
  qed
qed

lemma unguarded_linear_insert_insort:
  "l < length xs \<Longrightarrow>
   unguarded_linear_insert (\<lambda>a b. f b < f a) val xs l =
     rev (insort_key f val (rev (take l xs))) @ drop (Suc l) xs"
  for f :: "'a \<Rightarrow> 'b :: linorder"
proof (induction l arbitrary: xs)
  case 0
  then show ?case
    by (subst unguarded_linear_insert.simps) (cases xs, simp_all)
next
  case (Suc l)
  have t: "take (Suc l) xs = take l xs @ [xs ! l]"
    using Suc.prems by (simp add: take_Suc_conv_app_nth)
  show ?case
  proof (cases "f (xs ! l) < f val")
    case True
    have "unguarded_linear_insert (\<lambda>a b. f b < f a) val xs (Suc l) =
          unguarded_linear_insert (\<lambda>a b. f b < f a) val (xs[Suc l := xs ! l]) l"
      by (subst unguarded_linear_insert.simps) (simp add: True)
    also have "\<dots> = rev (insort_key f val (rev (take l (xs[Suc l := xs ! l])))) @
                     drop (Suc l) (xs[Suc l := xs ! l])"
      using Suc.prems by (intro Suc.IH) simp
    also have "drop (Suc l) (xs[Suc l := xs ! l]) = xs ! l # drop (Suc (Suc l)) xs"
      using Suc.prems by (simp add: upd_conv_take_nth_drop)
    finally show ?thesis using True by (simp add: t)
  next
    case False
    have "unguarded_linear_insert (\<lambda>a b. f b < f a) val xs (Suc l) = xs[Suc l := val]"
      by (subst unguarded_linear_insert.simps) (simp add: False)
    also have "\<dots> = take (Suc l) xs @ val # drop (Suc (Suc l)) xs"
      using Suc.prems by (simp add: upd_conv_take_nth_drop)
    finally show ?thesis using False by (simp add: t not_less)
  qed
qed

lemma unguarded_step:
  fixes f :: "'a \<Rightarrow> 'b :: linorder"
  assumes "sorted_prefix f xs i ys" "i < length xs"
  shows "sorted_prefix f xs (Suc i) (unguarded_linear_insert (\<lambda>a b. f b < f a) (ys ! i) ys i)"
proof -
  have il: "i < length ys" using assms by (simp add: sorted_prefix_def)
  define zs where "zs = insort_key f (ys ! i) (rev (take i ys))"
  have e: "unguarded_linear_insert (\<lambda>a b. f b < f a) (ys ! i) ys i = rev zs @ drop (Suc i) ys"
    unfolding zs_def by (rule unguarded_linear_insert_insort [OF il])
  have lz: "length zs = Suc i" using il by (simp add: zs_def)
  have "mset (rev zs @ drop (Suc i) ys) = mset (take i ys @ ys ! i # drop (Suc i) ys)"
    by (simp add: zs_def)
  also have "\<dots> = mset ys" using il by (simp only: id_take_nth_drop [symmetric])
  finally have m: "mset (rev zs @ drop (Suc i) ys) = mset xs"
    using assms by (simp add: sorted_prefix_def)
  have s: "sorted (map f zs)"
    using assms unfolding zs_def by (simp add: sorted_prefix_def sorted_insort_key)
  show ?thesis
    unfolding e sorted_prefix_def using lz m s il assms by (simp add: sorted_prefix_def)
qed

lemma guarded_step:
  fixes f :: "'a \<Rightarrow> 'b :: linorder"
  assumes "sorted_prefix f xs i ys" "i < length xs" "0 < i"
  shows "sorted_prefix f xs (Suc i)
           (if f (ys ! 0) < f (ys ! i)
            then take 0 ys @ [ys ! i] @ take (i - 0) (drop 0 ys) @ drop (Suc i) ys
            else unguarded_linear_insert (\<lambda>a b. f b < f a) (ys ! i) ys i)"
proof (cases "f (ys ! 0) < f (ys ! i)")
  case False
  then show ?thesis using unguarded_step [OF assms(1,2)] by simp
next
  case True
  have il: "i < length ys" using assms by (simp add: sorted_prefix_def)
  have s: "sorted (map f (rev (take i ys)))" using assms by (simp add: sorted_prefix_def)
  have "f y \<le> f (ys ! 0)" if "y \<in> set (take i ys)" for y
  proof -
    from that obtain j where j: "j < i" "y = ys ! j"
      using il by (auto simp: in_set_conv_nth)
    have "sorted_wrt (\<lambda>a b. f b \<le> f a) (take i ys)"
      using s by (simp add: sorted_wrt_rev sorted_wrt_map rev_map [symmetric])
    then show ?thesis
      using j il assms(3) by (cases "j = 0") (auto simp: sorted_wrt_iff_nth_less dest!: spec [of _ 0] spec [of _ j])
  qed
  then have b: "\<forall>y \<in> set (take i ys). f y \<le> f (ys ! i)" using True by fastforce
  have "mset (ys ! i # take i ys @ drop (Suc i) ys) = mset (take i ys @ ys ! i # drop (Suc i) ys)"
    by simp
  also have "\<dots> = mset ys" using il by (simp only: id_take_nth_drop [symmetric])
  finally have m: "mset (ys ! i # take i ys @ drop (Suc i) ys) = mset xs"
    using assms by (simp add: sorted_prefix_def)
  have t: "take (Suc i) (ys ! i # take i ys @ drop (Suc i) ys) = ys ! i # take i ys"
    using il by simp
  have "sorted (map f (rev (ys ! i # take i ys)))"
    using s b by (simp add: sorted_append)
  then show ?thesis
    using True m il assms unfolding sorted_prefix_def by (simp only: t) (simp add: sorted_prefix_def)
qed

lemma fold_steps:
  assumes "P a xs" "a \<le> b"
    and "\<And>i ys. a \<le> i \<Longrightarrow> i < b \<Longrightarrow> P i ys \<Longrightarrow> P (Suc i) (step i ys)"
  shows "P b (fold step [a..<b] xs)"
  using assms(2,3)
proof (induction b rule: dec_induct)
  case base
  then show ?case using assms(1) by simp
next
  case (step n)
  have "P n (fold step [a..<n] xs)" using step by simp
  then show ?case using step by simp
qed

lemma sorted_prefix_start: "sorted_prefix f xs (Suc 0) xs"
  by (cases xs) (simp_all add: sorted_prefix_def)

lemma insertion_sort_sorted:
  fixes f :: "'a \<Rightarrow> 'b :: linorder"
  assumes "0 < n" "n \<le> length xs"
  shows "sorted_prefix f xs n (insertion_sort (\<lambda>a b. f b < f a) xs 0 n)"
  unfolding insertion_sort_def
proof (rule fold_steps [where P = "sorted_prefix f xs"])
  show "sorted_prefix f xs (Suc 0) xs" by (rule sorted_prefix_start)
  show "Suc 0 \<le> n" using assms by simp
  fix i ys
  assume "Suc 0 \<le> i" "i < n" "sorted_prefix f xs i ys"
  then show "sorted_prefix f xs (Suc i)
    (if f (ys ! 0) < f (ys ! i)
     then take 0 ys @ [ys ! i] @ take (i - 0) (drop 0 ys) @ drop (Suc i) ys
     else unguarded_linear_insert (\<lambda>a b. f b < f a) (ys ! i) ys i)"
    using assms by (intro guarded_step) simp_all
qed

lemma final_insertion_sort_sorted:
  fixes f :: "'a \<Rightarrow> 'b :: linorder"
  assumes "xs \<noteq> []"
  shows "sorted_prefix f xs (length xs) (final_insertion_sort (\<lambda>a b. f b < f a) xs 0 (length xs))"
proof (cases "16 < length xs")
  case False
  then show ?thesis
    using insertion_sort_sorted [of "length xs" xs f] assms
    by (simp add: final_insertion_sort_def)
next
  case True
  define ys where "ys = insertion_sort (\<lambda>a b. f b < f a) xs 0 16"
  have y: "sorted_prefix f xs 16 ys"
    unfolding ys_def using True by (intro insertion_sort_sorted) simp_all
  have "sorted_prefix f xs (length xs)
          (fold (\<lambda>i ys. unguarded_linear_insert (\<lambda>a b. f b < f a) (ys ! i) ys i) [16..<length xs] ys)"
  proof (rule fold_steps [where P = "sorted_prefix f xs"])
    show "sorted_prefix f xs 16 ys" by (rule y)
    show "16 \<le> length xs" using True by simp
    fix i zs
    assume "16 \<le> i" "i < length xs" "sorted_prefix f xs i zs"
    then show "sorted_prefix f xs (Suc i) (unguarded_linear_insert (\<lambda>a b. f b < f a) (zs ! i) zs i)"
      by (intro unguarded_step)
  qed
  then show ?thesis
    using True by (simp add: final_insertion_sort_def unguarded_insertion_sort_def ys_def)
qed

lemma std_sort_sorts:
  fixes f :: "'a \<Rightarrow> 'b :: linorder"
  assumes "std_sort (\<lambda>a b. f b < f a) xs = Some ys"
  shows "std_sort_result (\<lambda>a b. f b < f a) xs ys"
proof (cases "xs = []")
  case True
  then show ?thesis using assms by (simp add: std_sort_def std_sort_result_def)
next
  case False
  from assms False obtain zs where
    z: "introsort_loop (\<lambda>a b. f b < f a) (lg (length xs) * 2) 0 (length xs) xs = Some zs" and
    y: "ys = final_insertion_sort (\<lambda>a b. f b < f a) zs 0 (length zs)"
    by (auto simp: std_sort_def split: option.splits)
  have zp: "length zs = length xs" "mset zs = mset xs"
    using introsort_loop_props [OF _ z] by simp_all
  then have "zs \<noteq> []" using False by auto
  then have sp: "sorted_prefix f zs (length zs) ys"
    unfolding y by (rule final_insertion_sort_sorted)
  then have "take (length zs) ys = ys" by (simp add: sorted_prefix_def)
  with sp have "mset ys = mset zs" "sorted (map f (rev ys))"
    by (simp_all add: sorted_prefix_def)
  then show ?thesis
    using zp by (simp add: std_sort_result_def sorted_wrt_rev sorted_wrt_map rev_map [symmetric] not_less)
qed

lemma orderMoves_gnu_refines:
  assumes "orderMoves_gnu ai g ttMove at_ply moves = Some out"
  shows "orderMoves ai g ttMove at_ply moves out"
proof -
  from assms obtain scored where
    s: "std_sort (\<lambda>a b. fst b < fst a) (map (\<lambda>m. (scoreMove ai m g ttMove at_ply, m)) moves) = Some scored"
    and o: "out = map snd scored"
    by (auto simp: orderMoves_gnu_def)
  show ?thesis unfolding o by (rule orderMoves.intros) (rule std_sort_sorts [OF s])
qed

text \<open>Every call of \<open>orderMoves\<close> has a result: the relation is not empty on any input.\<close>

lemma orderMoves_result_exists: "\<exists>out. orderMoves ai g ttMove at_ply moves out"
proof -
  define sc where "sc = map (\<lambda>m. (scoreMove ai m g ttMove at_ply, m)) moves"
  have "sorted (map fst (sort_key fst sc))" by simp
  then have "sorted_wrt (\<lambda>a b. \<not> fst a < fst b) (rev (sort_key fst sc))"
    by (simp add: sorted_wrt_rev sorted_wrt_map not_less)
  then have "std_sort_result (\<lambda>a b. fst a > fst b) sc (rev (sort_key fst sc))"
    by (simp add: std_sort_result_def)
  then have "orderMoves ai g ttMove at_ply moves (map snd (rev (sort_key fst sc)))"
    unfolding sc_def by (rule orderMoves.intros)
  then show ?thesis ..
qed

subsection \<open>The claim\<close>

text \<open>
  C6, as amended. \<open>orderMoves\<close> leaves a permutation of the move list in which the
  \<open>scoreMove\<close> values do not increase from front to back. The order among moves of equal
  score is whatever \<open>std::sort\<close> leaves.
\<close>

theorem orderMoves_sorted_permutation:
  assumes "orderMoves ai g ttMove at_ply moves out"
  shows "mset out = mset moves \<and>
         sorted_wrt (\<lambda>a b. scoreMove ai a g ttMove at_ply \<ge> scoreMove ai b g ttMove at_ply) out"
  using assms
proof (cases rule: orderMoves.cases)
  case (1 scored)
  define sc where "sc = (\<lambda>m. (scoreMove ai m g ttMove at_ply, m))"
  from 1 have ms: "mset scored = mset (map sc moves)"
    and so: "sorted_wrt (\<lambda>a b. \<not> fst b > fst a) scored"
    by (simp_all add: std_sort_result_def sc_def)
  have "mset (map snd scored) = image_mset snd (mset scored)" by simp
  also have "\<dots> = image_mset snd (mset (map sc moves))" by (simp only: ms)
  also have "\<dots> = mset (map snd (map sc moves))" by (simp only: mset_map)
  also have "\<dots> = mset moves" unfolding sc_def by (simp only: scored_snd)
  finally have perm: "mset out = mset moves" using 1 by simp
  have "set scored = set (map sc moves)" using ms by (metis set_mset_mset)
  then have fs: "fst x = scoreMove ai (snd x) g ttMove at_ply" if "x \<in> set scored" for x
    using that by (auto simp: sc_def)
  have "sorted_wrt (\<lambda>a b. scoreMove ai (snd a) g ttMove at_ply \<ge> scoreMove ai (snd b) g ttMove at_ply) scored"
    using so by (rule sorted_wrt_mono_rel [rotated]) (simp add: fs)
  then have "sorted_wrt (\<lambda>a b. scoreMove ai a g ttMove at_ply \<ge> scoreMove ai b g ttMove at_ply) (map snd scored)"
    by (simp add: sorted_wrt_map)
  with perm 1 show ?thesis by simp
qed

lemma newAI_tables: "killers newAI p k = Move0" "history newAI f t = 0"
  by (simp_all add: newAI_def clearHash_def clearKillers_def)

lemma start_scores:
  "scoreMove newAI (Move 1032) newGame Move0 0 = 200"
  "scoreMove newAI (Move 5640) newGame Move0 0 = 300"
  "scoreMove newAI (Move 1097) newGame Move0 0 = 200"
  by (simp_all add: scoreMove_def newAI_tables newGame_fields eval_move eval_squares)

theorem orderMoves_sorted_permutation_witness:
  "orderMoves newAI newGame Move0 0 [Move 1032, Move 5640] [Move 5640, Move 1032] \<and>
   mset [Move 5640, Move 1032] = mset [Move 1032, Move 5640] \<and>
   scoreMove newAI (Move 5640) newGame Move0 0 \<ge> scoreMove newAI (Move 1032) newGame Move0 0"
proof -
  have "orderMoves newAI newGame Move0 0 [Move 1032, Move 5640]
          (map snd [(300 :: int, Move 5640), (200, Move 1032)])"
    by (rule orderMoves.intros) (simp add: std_sort_result_def start_scores)
  then have o: "orderMoves newAI newGame Move0 0 [Move 1032, Move 5640] [Move 5640, Move 1032]"
    by simp
  show ?thesis using o orderMoves_sorted_permutation [OF o] by simp
qed

subsection \<open>Twenty queen moves\<close>

text \<open>
  After \<open>a2a3\<close> from the start position the queen on d8 has twenty moves: nineteen quiet
  ones and the capture on d2.
\<close>

lemma a2a3_moves:
  "generateLegalMoves game_a2a3 =
     map Move [1275, 1787, 2043, 2107, 2299, 2491, 2683, 2811, 2939, 3259,
               3323, 3387, 3643, 3707, 3771, 3899, 3963, 4027, 4091, 17147]"
  by (simp add: eval_moves eval_rays game_a2a3_fields eval_lsb eval_squares eval_move)

text \<open>For a fresh engine and no hint the quiet moves score 0 and the capture 100000.\<close>

lemma a2a3_scores:
  "map (\<lambda>m. (scoreMove newAI m game_a2a3 Move0 1, m))
     (map Move [1275, 1787, 2043, 2107, 2299, 2491, 2683, 2811, 2939, 3259,
                3323, 3387, 3643, 3707, 3771, 3899, 3963, 4027, 4091, 17147]) =
   [(0, Move 1275), (0, Move 1787), (0, Move 2043), (0, Move 2107), (0, Move 2299),
    (0, Move 2491), (0, Move 2683), (0, Move 2811), (0, Move 2939), (0, Move 3259),
    (0, Move 3323), (0, Move 3387), (0, Move 3643), (0, Move 3707), (0, Move 3771),
    (0, Move 3899), (0, Move 3963), (0, Move 4027), (0, Move 4091), (100000, Move 17147)]"
  by (simp add: scoreMove_def newAI_tables game_a2a3_fields eval_move eval_squares)

text \<open>
  Twenty elements are more than 16: the sort moves the middle element to the front as
  pivot, exchanges the elements at positions 1 to 9 with those at positions 19 to 11, and
  the insertion sort then only brings the capture to the front.
\<close>

lemma std_sort_a2a3:
  "std_sort (\<lambda>a b. fst a > fst b)
   [(0 :: int, Move 1275), (0, Move 1787), (0, Move 2043), (0, Move 2107), (0, Move 2299),
    (0, Move 2491), (0, Move 2683), (0, Move 2811), (0, Move 2939), (0, Move 3259),
    (0, Move 3323), (0, Move 3387), (0, Move 3643), (0, Move 3707), (0, Move 3771),
    (0, Move 3899), (0, Move 3963), (0, Move 4027), (0, Move 4091), (100000, Move 17147)] =
   Some
   [(100000, Move 17147), (0, Move 3323), (0, Move 4091), (0, Move 4027), (0, Move 3963),
    (0, Move 3899), (0, Move 3771), (0, Move 3707), (0, Move 3643), (0, Move 3387),
    (0, Move 1275), (0, Move 3259), (0, Move 2939), (0, Move 2811), (0, Move 2683),
    (0, Move 2491), (0, Move 2299), (0, Move 2107), (0, Move 2043), (0, Move 1787)]"
  by code_simp

lemma orderMoves_gnu_a2a3:
  "orderMoves_gnu newAI game_a2a3 Move0 1 (generateLegalMoves game_a2a3) =
     Some (map Move [17147, 3323, 4091, 4027, 3963, 3899, 3771, 3707, 3643, 3387,
                     1275, 3259, 2939, 2811, 2683, 2491, 2299, 2107, 2043, 1787])"
  by (simp only: orderMoves_gnu_def a2a3_moves a2a3_scores std_sort_a2a3) simp

text \<open>
  C6 as stated asks for a stable ranking. The twenty queen moves after \<open>a2a3\<close> go in with
  d8d3 (\<open>Move 1275\<close>) first and d8d7 (\<open>Move 3323\<close>) eleventh, both of score 0. With the
  sort of GNU libstdc++ \<open>orderMoves\<close> leaves d8d7 second and d8d3 eleventh, and the other
  quiet moves in reverse order.
\<close>

theorem orderMoves_not_stable:
  "generateLegalMoves game_a2a3 =
     map Move [1275, 1787, 2043, 2107, 2299, 2491, 2683, 2811, 2939, 3259,
               3323, 3387, 3643, 3707, 3771, 3899, 3963, 4027, 4091, 17147] \<and>
   orderMoves_gnu newAI game_a2a3 Move0 1 (generateLegalMoves game_a2a3) =
     Some (map Move [17147, 3323, 4091, 4027, 3963, 3899, 3771, 3707, 3643, 3387,
                     1275, 3259, 2939, 2811, 2683, 2491, 2299, 2107, 2043, 1787]) \<and>
   orderMoves newAI game_a2a3 Move0 1 (generateLegalMoves game_a2a3)
     (map Move [17147, 3323, 4091, 4027, 3963, 3899, 3771, 3707, 3643, 3387,
                1275, 3259, 2939, 2811, 2683, 2491, 2299, 2107, 2043, 1787]) \<and>
   scoreMove newAI (Move 1275) game_a2a3 Move0 1 = 0 \<and>
   scoreMove newAI (Move 3323) game_a2a3 Move0 1 = 0 \<and>
   Move 1275 \<noteq> Move 3323"
proof -
  have s: "scoreMove newAI (Move 1275) game_a2a3 Move0 1 = 0"
    "scoreMove newAI (Move 3323) game_a2a3 Move0 1 = 0"
    by (simp_all add: scoreMove_def newAI_tables game_a2a3_fields eval_move eval_squares)
  show ?thesis
    using a2a3_moves orderMoves_gnu_a2a3 orderMoves_gnu_refines [OF orderMoves_gnu_a2a3] s
    by simp
qed

end
